theory Spec2Isabelle
  imports Complex_Main
begin

section \<open>JavaScript numbers\<close>

text \<open>
  The game computes with JavaScript numbers. The model reads a number as a real, so
  that rounding and overflow of the binary64 format are left out. Where the source
  divides by a value that can be zero, or reads a peg coordinate that such a division
  produced, the model uses \<open>jsnum\<close>, which adds NaN and the two infinities with the
  rules of the language: an operation with a NaN operand is NaN, \<open>0/0\<close>,
  \<open>\<infinity> - \<infinity>\<close> and \<open>0 \<cdot> \<infinity>\<close> are NaN, and every comparison with NaN is
  false. Zero carries no sign in the model: a non-zero number divided by zero takes the
  sign of the dividend.
\<close>

datatype jsnum = NaN | NInf | Fin real | PInf

fun jneg :: "jsnum \<Rightarrow> jsnum" where
  "jneg NaN = NaN"
| "jneg NInf = PInf"
| "jneg PInf = NInf"
| "jneg (Fin a) = Fin (- a)"

fun jadd :: "jsnum \<Rightarrow> jsnum \<Rightarrow> jsnum" where
  "jadd NaN _ = NaN"
| "jadd _ NaN = NaN"
| "jadd (Fin a) (Fin b) = Fin (a + b)"
| "jadd PInf NInf = NaN"
| "jadd NInf PInf = NaN"
| "jadd PInf _ = PInf"
| "jadd _ PInf = PInf"
| "jadd NInf _ = NInf"
| "jadd _ NInf = NInf"

definition jsub :: "jsnum \<Rightarrow> jsnum \<Rightarrow> jsnum" where
  "jsub a b = jadd a (jneg b)"

text \<open>The sign of a number that is not NaN: \<open>-1\<close>, \<open>0\<close> or \<open>1\<close>.\<close>

fun jsign :: "jsnum \<Rightarrow> int" where
  "jsign NaN = 0"
| "jsign NInf = - 1"
| "jsign PInf = 1"
| "jsign (Fin a) = (if a < 0 then - 1 else if a = 0 then 0 else 1)"

definition jinf :: "int \<Rightarrow> jsnum" where
  "jinf sg = (if sg = 0 then NaN else if sg < 0 then NInf else PInf)"

fun jmul :: "jsnum \<Rightarrow> jsnum \<Rightarrow> jsnum" where
  "jmul NaN _ = NaN"
| "jmul _ NaN = NaN"
| "jmul (Fin a) (Fin b) = Fin (a * b)"
| "jmul a b = jinf (jsign a * jsign b)"

fun jdiv :: "jsnum \<Rightarrow> jsnum \<Rightarrow> jsnum" where
  "jdiv NaN _ = NaN"
| "jdiv _ NaN = NaN"
| "jdiv (Fin a) (Fin b) = (if b = 0 then jinf (jsign (Fin a)) else Fin (a / b))"
| "jdiv (Fin a) _ = Fin 0"
| "jdiv a (Fin b) = jinf (jsign a * (if b < 0 then - 1 else 1))"
| "jdiv _ _ = NaN"

fun jlt :: "jsnum \<Rightarrow> jsnum \<Rightarrow> bool" where
  "jlt NaN _ = False"
| "jlt _ NaN = False"
| "jlt (Fin a) (Fin b) = (a < b)"
| "jlt NInf NInf = False"
| "jlt NInf _ = True"
| "jlt _ NInf = False"
| "jlt PInf _ = False"
| "jlt _ PInf = True"

definition jle :: "jsnum \<Rightarrow> jsnum \<Rightarrow> bool" where
  "jle a b = (a \<noteq> NaN \<and> b \<noteq> NaN \<and> (a = b \<or> jlt a b))"

text \<open>\<open>Math.min\<close> and \<open>Math.max\<close>: NaN as soon as one argument is NaN.\<close>

definition jmin :: "jsnum \<Rightarrow> jsnum \<Rightarrow> jsnum" where
  "jmin a b = (if a = NaN \<or> b = NaN then NaN else if jlt b a then b else a)"

definition jmax :: "jsnum \<Rightarrow> jsnum \<Rightarrow> jsnum" where
  "jmax a b = (if a = NaN \<or> b = NaN then NaN else if jlt a b then b else a)"

text \<open>\<open>clamp(v, a, b) = Math.max(a, Math.min(b, v))\<close>, on numbers that may be NaN and on reals.\<close>

definition jclamp :: "jsnum \<Rightarrow> jsnum \<Rightarrow> jsnum \<Rightarrow> jsnum" where
  "jclamp v a b = jmax a (jmin b v)"

definition clamp :: "real \<Rightarrow> real \<Rightarrow> real \<Rightarrow> real" where
  "clamp v a b = max a (min b v)"

text \<open>
  The random source: \<open>rnd k\<close> is the value of the \<open>k\<close>-th call of \<open>Math.random()\<close>.
  Each function that draws takes the number of calls made so far and returns the new
  count. \<open>Math.random()\<close> returns a number in \<open>[0, 1)\<close>.
\<close>

type_synonym random_source = "nat \<Rightarrow> real"

definition unit_random :: "random_source \<Rightarrow> bool" where
  "unit_random rnd = (\<forall>k. 0 \<le> rnd k \<and> rnd k < 1)"

section \<open>Pegs and ball\<close>

record peg =
  peg_id :: string
  peg_x :: jsnum
  peg_y :: jsnum
  removed :: bool
  hit :: bool
  num :: "int option"

record pball =
  ball_x :: real
  ball_y :: real
  ball_vx :: real
  ball_vy :: real
  dropping :: bool

text \<open>The decimal digits of an index, as the template literal \<open>`peg-${idx}`\<close> prints it.\<close>

definition digit_char :: "nat \<Rightarrow> char" where
  "digit_char d = char_of (48 + d)"

fun string_of_nat :: "nat \<Rightarrow> string" where
  "string_of_nat n =
     (if n < 10 then [digit_char n] else string_of_nat (n div 10) @ [digit_char (n mod 10)])"

declare string_of_nat.simps [simp del]

subsection \<open>generatePegs\<close>

text \<open>The constants \<open>cols\<close>, \<open>left\<close>, \<open>right\<close>, \<open>top\<close> and \<open>bottom\<close> of the function.\<close>

definition cols :: nat where "cols = 6"
definition inset_left :: real where "inset_left = 0.12"
definition inset_right :: real where "inset_right = 0.88"
definition inset_top :: real where "inset_top = 0.15"
definition inset_bottom :: real where "inset_bottom = 0.90"

text \<open>
  The body of the inner loop: the peg of row \<open>r\<close> and column \<open>c\<close>, with the two jitter
  draws \<open>rnd k\<close> and \<open>rnd (k + 1)\<close>. The quotient \<open>c / (cols - 1)\<close> has the divisor 5;
  \<open>r / (rows - 1)\<close> has the divisor 0 when there is one row only.
\<close>

definition make_peg :: "random_source \<Rightarrow> nat \<Rightarrow> nat \<Rightarrow> nat \<Rightarrow> nat \<Rightarrow> nat \<Rightarrow> peg" where
  "make_peg rnd k rows r c idx =
     (let gx = inset_left + (real c / (real cols - 1)) * (inset_right - inset_left);
          gy = jadd (Fin inset_top)
                 (jmul (jdiv (Fin (real r)) (Fin (real rows - 1))) (Fin (inset_bottom - inset_top)));
          stagger = real (r mod 2) * (inset_right - inset_left) * 0.08;
          jitterX = (rnd k - 0.5) * 0.03;
          jitterY = (rnd (k + 1) - 0.5) * 0.03
      in \<lparr> peg_id = ''peg-'' @ string_of_nat idx,
           peg_x = Fin (clamp (gx + stagger + jitterX) 0.12 0.88),
           peg_y = jclamp (jadd gy (Fin jitterY)) (Fin 0.15) (Fin 0.90),
           removed = False,
           hit = False,
           num = None \<rparr>)"

text \<open>
  The loop state is \<open>(idx, k, pegs)\<close>: the running index, the number of random draws
  made and the pegs pushed so far. \<open>break\<close> leaves the inner loop only, so that the
  outer loop goes on to the next row.
\<close>

function generatePegs_cols ::
  "random_source \<Rightarrow> nat \<Rightarrow> nat \<Rightarrow> nat \<Rightarrow> nat \<Rightarrow> nat \<times> nat \<times> peg list \<Rightarrow> nat \<times> nat \<times> peg list"
where
  "generatePegs_cols rnd count rows r c (idx, k, pegs) =
     (if c < cols then
        (if idx \<ge> count then (idx, k, pegs)
         else generatePegs_cols rnd count rows r (c + 1)
                (idx + 1, k + 2, pegs @ [make_peg rnd k rows r c idx]))
      else (idx, k, pegs))"
  by pat_completeness auto
termination
  by (relation "measure (\<lambda>(rnd, count, rows, r, c, st). cols - c)") auto

function generatePegs_rows ::
  "random_source \<Rightarrow> nat \<Rightarrow> nat \<Rightarrow> nat \<Rightarrow> nat \<times> nat \<times> peg list \<Rightarrow> nat \<times> nat \<times> peg list"
where
  "generatePegs_rows rnd count rows r st =
     (if r < rows then
        generatePegs_rows rnd count rows (r + 1) (generatePegs_cols rnd count rows r 0 st)
      else st)"
  by pat_completeness auto
termination
  by (relation "measure (\<lambda>(rnd, count, rows, r, st). rows - r)") auto

declare generatePegs_cols.simps [simp del]
declare generatePegs_rows.simps [simp del]

text \<open>\<open>generatePegs(count)\<close>, started after \<open>k\<close> random draws: the pegs and the new count of draws.\<close>

definition generatePegs :: "random_source \<Rightarrow> nat \<Rightarrow> nat \<Rightarrow> peg list \<times> nat" where
  "generatePegs rnd k count =
     (let rows = nat \<lceil>real count / real cols\<rceil>;
          (idx, k', pegs) = generatePegs_rows rnd count rows 0 (0, k, [])
      in (pegs, k'))"

text \<open>The test that a peg lies in the inset rectangle, with the comparisons of the language.\<close>

definition in_inset :: "peg \<Rightarrow> bool" where
  "in_inset p = (jle (Fin 0.12) (peg_x p) \<and> jle (peg_x p) (Fin 0.88)
                 \<and> jle (Fin 0.15) (peg_y p) \<and> jle (peg_y p) (Fin 0.90))"

section \<open>Bingo card and number oracle\<close>

text \<open>
  A card is a grid of five rows of five cells, each a number or the free cell.
  \<open>cardNumberPool\<close> reads the rows and columns 0 to 4 in row order and keeps the
  numbers.
\<close>

datatype cell = Num int | FREE

fun cell_numbers :: "cell list \<Rightarrow> int list" where
  "cell_numbers [] = []"
| "cell_numbers (Num n # vs) = n # cell_numbers vs"
| "cell_numbers (FREE # vs) = cell_numbers vs"

definition cardNumberPool :: "cell list list \<Rightarrow> int list" where
  "cardNumberPool grid = concat (map (\<lambda>row. cell_numbers (take 5 row)) (take 5 grid))"

text \<open>
  \<open>pickHitNumber(pool, marked)\<close>, started after \<open>k\<close> random draws. It draws \<open>roll\<close> and
  then one more number in either branch. The result is \<open>None\<close> where the array read
  \<open>unmarked[i]\<close> is out of range, which gives \<open>undefined\<close> in the source.
\<close>

definition pickHitNumber ::
  "random_source \<Rightarrow> nat \<Rightarrow> int list \<Rightarrow> int set \<Rightarrow> int option \<times> nat" where
  "pickHitNumber rnd k pool mk =
     (let unmarked = filter (\<lambda>n. n \<notin> mk) pool;
          roll = rnd k
      in if length unmarked > 0 \<and> roll < 0.75 then
           (let i = \<lfloor>rnd (k + 1) * real (length unmarked)\<rfloor>
            in (if 0 \<le> i \<and> i < int (length unmarked) then Some (unmarked ! nat i) else None,
                k + 2))
         else (Some (\<lfloor>rnd (k + 1) * 75\<rfloor> + 1), k + 2))"

section \<open>The game component\<close>

text \<open>
  The state of \<open>BingoPachinkoGame\<close>. The component keeps the pegs twice: \<open>pegs\<close> is the
  React state, which \<open>setPegs\<close> writes, and \<open>pegsRef\<close> is the ref that the animation loop
  reads. The effect \<open>pegsRef.current = pegs\<close> copies the state into the ref after a render;
  it is an event of its own in the model, so that frames can run before it. Ball, pool
  and marked set are kept once: the ball is the value of \<open>ballRef\<close>, which the loop
  writes, and of the state \<open>ball\<close> once the render has copied it. \<open>isPositioning\<close> is
  \<open>isPositioningRef\<close>, \<open>card_grid\<close> is the state \<open>card\<close>, \<open>hitPegIds\<close> is \<open>hitPegIdsRef\<close>,
  \<open>lastUpdate\<close> is \<open>lastUpdateRef\<close>, and \<open>rng\<close> counts the calls of \<open>Math.random()\<close> other
  than those of \<open>generateBingoCard\<close>, whose result is a parameter where a card is drawn.
  The frame counter and the writes to the DOM only publish the ball for display and are
  left out.
\<close>

record game =
  card_grid :: "cell list list"
  marked :: "int set"
  pegs :: "peg list"
  pegsRef :: "peg list"
  ballsLeft :: int
  ball :: pball
  hitPegIds :: "string set"
  lastUpdate :: real
  isPositioning :: bool
  rng :: nat

definition pool :: "game \<Rightarrow> int list" where
  "pool s = cardNumberPool (card_grid s)"

definition markNumber :: "int \<Rightarrow> game \<Rightarrow> game" where
  "markNumber n s =
     (if n \<notin> set (pool s) then s
      else s\<lparr>marked := (if n \<in> marked s then marked s else insert n (marked s))\<rparr>)"

definition spawn_ball :: pball where
  "spawn_ball = \<lparr> ball_x = 0.5, ball_y = 0.06, ball_vx = 0, ball_vy = 0, dropping = False \<rparr>"

text \<open>
  \<open>resetBoard\<close> writes the new pegs with \<open>setPegs\<close>; ball and touched set are written in
  their refs at once.
\<close>

definition resetBoard :: "random_source \<Rightarrow> game \<Rightarrow> game" where
  "resetBoard rnd s =
     (let (newPegs, k') = generatePegs rnd (rng s) 30
      in s\<lparr>pegs := newPegs, ball := spawn_ball, hitPegIds := {}, rng := k'\<rparr>)"

text \<open>\<open>newGame\<close>; \<open>newCard\<close> is the card that \<open>generateBingoCard()\<close> returned.\<close>

definition newGame :: "random_source \<Rightarrow> cell list list \<Rightarrow> game \<Rightarrow> game" where
  "newGame rnd newCard s = resetBoard rnd (s\<lparr>card_grid := newCard, marked := {}, ballsLeft := 5\<rparr>)"

text \<open>
  The component at its first render, with the card drawn and the clock at \<open>now\<close>; the ref
  starts with the initial pegs.
\<close>

definition init_game :: "random_source \<Rightarrow> cell list list \<Rightarrow> real \<Rightarrow> game" where
  "init_game rnd newCard now =
     (let (initialPegs, k') = generatePegs rnd 0 30
      in \<lparr> card_grid = newCard, marked = {}, pegs = initialPegs, pegsRef = initialPegs, ballsLeft = 5,
           ball = spawn_ball,
           hitPegIds = {}, lastUpdate = now, isPositioning = False, rng = k' \<rparr>)"

subsection \<open>End-of-drop cleanup\<close>

text \<open>
  The \<open>map\<close> over the pegs in the cleanup branch of \<open>step\<close>, with the numbers it pushes
  on \<open>hitNums\<close> on the way.
\<close>

fun cleanup_map :: "string set \<Rightarrow> peg list \<Rightarrow> int list \<Rightarrow> peg list \<times> int list" where
  "cleanup_map hitIds [] hitNums = ([], hitNums)"
| "cleanup_map hitIds (p # ps) hitNums =
     (if removed p then
        (let (next, hn) = cleanup_map hitIds ps hitNums in (p # next, hn))
      else if peg_id p \<notin> hitIds then
        (let (next, hn) = cleanup_map hitIds ps hitNums in (p # next, hn))
      else
        (let hitNums' = (case num p of Some n \<Rightarrow> hitNums @ [n] | None \<Rightarrow> hitNums);
             (next, hn) = cleanup_map hitIds ps hitNums'
         in (p\<lparr>removed := True\<rparr> # next, hn)))"

subsection \<open>One frame of physics\<close>

definition g :: real where "g = 1.55"
definition damp :: real where "damp = 0.999"
definition rBall :: real where "rBall = 0.03"
definition rPeg :: real where "rPeg = 0.018"
definition rr :: real where "rr = (rBall + rPeg) * (rBall + rPeg)"

text \<open>Gravity, damping and the new position: \<open>(x, y, vx, vy)\<close>.\<close>

definition integrate :: "real \<Rightarrow> pball \<Rightarrow> real \<times> real \<times> real \<times> real" where
  "integrate dt b =
     (let vx = ball_vx b * damp powr (dt * 60);
          vy = (ball_vy b + g * dt) * damp powr (dt * 60);
          x = ball_x b + vx * dt;
          y = ball_y b + vy * dt
      in (x, y, vx, vy))"

text \<open>Wall collisions: the three tests in the order of the source.\<close>

definition walls :: "real \<times> real \<times> real \<times> real \<Rightarrow> real \<times> real \<times> real \<times> real" where
  "walls q =
     (case q of (x, y, vx, vy) \<Rightarrow>
        (let (x1, vx1) = (if x < rBall then (rBall, vx * (- 0.85)) else (x, vx));
             (x2, vx2) = (if x1 > 1 - rBall then (1 - rBall, vx1 * (- 0.85)) else (x1, vx1));
             (y1, vy1) = (if y < rBall then (rBall, vy * (- 0.35)) else (y, vy))
         in (x2, y1, vx2, vy1)))"

text \<open>
  The variables of the loop over the pegs: the touched set, \<open>pegUpdates\<close>, \<open>closest\<close>,
  \<open>bestDist\<close> and the count of random draws.
\<close>

record scan =
  sc_hitIds :: "string set"
  sc_updates :: "(string \<times> int option) list"
  sc_closest :: "peg option"
  sc_bestDist :: jsnum
  sc_k :: nat

text \<open>The body of the loop for one peg; a removed peg is skipped.\<close>

definition scan_peg ::
  "random_source \<Rightarrow> int list \<Rightarrow> int set \<Rightarrow> real \<Rightarrow> real \<Rightarrow> peg \<Rightarrow> scan \<Rightarrow> scan" where
  "scan_peg rnd pl mk x y p sc =
     (if removed p then sc
      else
        (let dx = jsub (Fin x) (peg_x p);
             dy = jsub (Fin y) (peg_y p);
             dist2 = jadd (jmul dx dx) (jmul dy dy);
             sc1 = (if jle dist2 (Fin rr) then
                      (let sc' = sc\<lparr>sc_hitIds := insert (peg_id p) (sc_hitIds sc)\<rparr>
                       in if \<not> hit p then
                            (let (n, k') = pickHitNumber rnd (sc_k sc') pl mk
                             in sc'\<lparr>sc_updates := sc_updates sc' @ [(peg_id p, n)], sc_k := k'\<rparr>)
                          else sc')
                    else sc)
         in if jlt dist2 (sc_bestDist sc1)
            then sc1\<lparr>sc_bestDist := dist2, sc_closest := Some p\<rparr> else sc1))"

fun peg_scan ::
  "random_source \<Rightarrow> int list \<Rightarrow> int set \<Rightarrow> real \<Rightarrow> real \<Rightarrow> peg list \<Rightarrow> scan \<Rightarrow> scan" where
  "peg_scan rnd pl mk x y [] sc = sc"
| "peg_scan rnd pl mk x y (p # ps) sc = peg_scan rnd pl mk x y ps (scan_peg rnd pl mk x y p sc)"

text \<open>The loop variables before the first peg.\<close>

definition scan0 :: "game \<Rightarrow> scan" where
  "scan0 s = \<lparr> sc_hitIds = hitPegIds s, sc_updates = [], sc_closest = None,
               sc_bestDist = PInf, sc_k = rng s \<rparr>"

text \<open>
  The updater passed to \<open>setPegs\<close>: \<open>updateMap\<close> is built from \<open>pegUpdates\<close>, a later
  entry for an id replacing an earlier one, and a peg is replaced when the map has a
  number for its id.
\<close>

definition apply_updates :: "(string \<times> int option) list \<Rightarrow> peg list \<Rightarrow> peg list" where
  "apply_updates pegUpdates prev =
     (let updateMap = map_of (rev pegUpdates)
      in map (\<lambda>p. case updateMap (peg_id p) of
                     Some (Some n) \<Rightarrow> p\<lparr>hit := True, num := Some n\<rparr>
                   | _ \<Rightarrow> p) prev)"

text \<open>
  The bounce off the closest peg. \<open>dist\<close> is \<open>Math.sqrt(dx * dx + dy * dy) || 1\<close>. When a
  coordinate of the peg is NaN or infinite, the square root is NaN or infinite, \<open>dist\<close>
  is 1 or infinite, and the test \<open>dist < minDist\<close> fails.
\<close>

definition bounce ::
  "peg option \<Rightarrow> real \<times> real \<times> real \<times> real \<Rightarrow> real \<times> real \<times> real \<times> real" where
  "bounce closest q =
     (case q of (x, y, vx, vy) \<Rightarrow>
        (case closest of
           None \<Rightarrow> q
         | Some c \<Rightarrow>
             (case (peg_x c, peg_y c) of
                (Fin cx, Fin cy) \<Rightarrow>
                  (let dx = x - cx;
                       dy = y - cy;
                       root = sqrt (dx * dx + dy * dy);
                       dist = (if root = 0 then 1 else root);
                       minDist = rBall + rPeg
                   in if dist < minDist then
                        (let nx = dx / dist;
                             ny = dy / dist;
                             vdot = vx * nx + vy * ny;
                             vx1 = (vx - 2 * vdot * nx) * 0.88;
                             vy1 = (vy - 2 * vdot * ny) * 0.88;
                             x1 = clamp (x + nx * (minDist - dist) * 0.8) 0.03 0.97;
                             y1 = clamp (y + ny * (minDist - dist) * 0.8) 0.03 1.1
                         in (x1, y1, vx1, vy1))
                      else q)
              | _ \<Rightarrow> q)))"

text \<open>
  \<open>step(now)\<close>: the numbers passed to \<open>markNumber\<close> in this frame, in order, and the new
  state. \<open>currentPegs\<close> is \<open>pegsRef.current\<close> in the cleanup and in the loop over the
  pegs; the cleanup writes its result with \<open>setPegs\<close>, and the updater of the physics
  branch runs on the state \<open>pegs\<close>.
\<close>

definition step :: "random_source \<Rightarrow> real \<Rightarrow> game \<Rightarrow> int list \<times> game" where
  "step rnd now s0 =
     (let dt = min 0.02 ((now - lastUpdate s0) / 1000);
          s = s0\<lparr>lastUpdate := now\<rparr>;
          b = ball s
      in if \<not> dropping b then
           (if ball_y b \<ge> 1.05 \<and> hitPegIds s \<noteq> {} then
              (let (next, hitNums) = cleanup_map (hitPegIds s) (pegsRef s) []
               in (hitNums, (foldl (\<lambda>t n. markNumber n t) s hitNums)\<lparr>pegs := next, hitPegIds := {}\<rparr>))
            else ([], s))
         else
           (let (x, y, vx, vy) = walls (integrate dt b);
                sc = peg_scan rnd (pool s) (marked s) x y (pegsRef s) (scan0 s);
                pegs' = (if sc_updates sc \<noteq> [] then apply_updates (sc_updates sc) (pegs s)
                         else pegs s);
                (x', y', vx', vy') = bounce (sc_closest sc) (x, y, vx, vy);
                s1 = s\<lparr>pegs := pegs', hitPegIds := sc_hitIds sc, rng := sc_k sc\<rparr>
            in if y' > 1.06 then
                 ([], s1\<lparr>ball := b\<lparr>ball_x := x', ball_y := 1.06, ball_vx := 0, ball_vy := 0,
                                   dropping := False\<rparr>\<rparr>)
               else
                 ([], s1\<lparr>ball := \<lparr> ball_x = x', ball_y = y', ball_vx = vx', ball_vy = vy',
                                  dropping = True \<rparr>\<rparr>)))"

subsection \<open>Pointer handlers\<close>

text \<open>
  \<open>ratio\<close> is the quotient \<open>x / rect.width\<close> of the pointer's offset in the target and
  the target's width, which the handlers clamp into \<open>[0.06, 0.94]\<close>.
\<close>

definition handleStart :: "real \<Rightarrow> game \<Rightarrow> game" where
  "handleStart ratio s =
     (if dropping (ball s) \<or> ballsLeft s \<le> 0 then s
      else s\<lparr>isPositioning := True,
             ball := (if dropping (ball s) then ball s
                      else (ball s)\<lparr>ball_x := clamp ratio 0.06 0.94\<rparr>)\<rparr>)"

definition handleMove :: "real \<Rightarrow> game \<Rightarrow> game" where
  "handleMove ratio s =
     (if \<not> isPositioning s then s
      else if dropping (ball s) \<or> ballsLeft s \<le> 0 then s
      else s\<lparr>ball := (if dropping (ball s) then ball s
                      else (ball s)\<lparr>ball_x := clamp ratio 0.06 0.94\<rparr>)\<rparr>)"

definition handleEnd :: "random_source \<Rightarrow> game \<Rightarrow> game" where
  "handleEnd rnd s =
     (if \<not> isPositioning s then s
      else if dropping (ball s) \<or> ballsLeft s \<le> 0 then s\<lparr>isPositioning := False\<rparr>
      else s\<lparr>isPositioning := False,
             hitPegIds := {},
             ballsLeft := max 0 (ballsLeft s - 1),
             ball := (ball s)\<lparr>ball_y := 0.06, ball_vx := (rnd (rng s) - 0.5) * 0.18,
                              ball_vy := 0.02, dropping := True\<rparr>,
             rng := rng s + 1\<rparr>)"

subsection \<open>Runs\<close>

text \<open>The effect that copies the state \<open>pegs\<close> into \<open>pegsRef\<close>.\<close>

definition pegsEffect :: "game \<Rightarrow> game" where
  "pegsEffect s = s\<lparr>pegsRef := pegs s\<rparr>"

datatype event =
    Frame real
  | PegsEffect
  | PointerStart real
  | PointerMove real
  | PointerEnd
  | ResetBoard
  | NewGame "cell list list"

fun apply_event :: "random_source \<Rightarrow> game \<Rightarrow> event \<Rightarrow> game" where
  "apply_event rnd s (Frame now) = snd (step rnd now s)"
| "apply_event rnd s PegsEffect = pegsEffect s"
| "apply_event rnd s (PointerStart ratio) = handleStart ratio s"
| "apply_event rnd s (PointerMove ratio) = handleMove ratio s"
| "apply_event rnd s PointerEnd = handleEnd rnd s"
| "apply_event rnd s ResetBoard = resetBoard rnd s"
| "apply_event rnd s (NewGame newCard) = newGame rnd newCard s"

definition run :: "random_source \<Rightarrow> event list \<Rightarrow> game \<Rightarrow> game" where
  "run rnd es s = foldl (apply_event rnd) s es"

fun replaces_pegs :: "event \<Rightarrow> bool" where
  "replaces_pegs ResetBoard = True"
| "replaces_pegs (NewGame _) = True"
| "replaces_pegs _ = False"

text \<open>The region the ball is to stay in: \<open>x \<in> [0, 1]\<close> and \<open>y \<in> [0, 1.1]\<close>.\<close>

definition in_bounds :: "pball \<Rightarrow> bool" where
  "in_bounds b = (0 \<le> ball_x b \<and> ball_x b \<le> 1 \<and> 0 \<le> ball_y b \<and> ball_y b \<le> 1.1)"

text \<open>
  The facts about a list of pegs that the theorems on pegs rest on: the ids are distinct,
  a peg with a finite \<open>y\<close> lies at \<open>y \<le> 1\<close>, and a peg is hit exactly when it has a
  number. A board is in order when they hold of the state and of the ref.
\<close>

definition pegs_ok :: "peg list \<Rightarrow> bool" where
  "pegs_ok ps = (distinct (map peg_id ps)
                 \<and> (\<forall>w\<in>set (map peg_y ps). \<forall>v. w = Fin v \<longrightarrow> v \<le> 1)
                 \<and> (\<forall>p\<in>set ps. hit p = (num p \<noteq> None)))"

definition board_ok :: "game \<Rightarrow> bool" where
  "board_ok s = (pegs_ok (pegs s) \<and> pegs_ok (pegsRef s))"

text \<open>
  The ref has seen peg \<open>k\<close> lit: state and ref list the same ids, all distinct, and in
  both the peg at place \<open>k\<close> is hit and has the number \<open>v\<close>.
\<close>

definition seen_lit :: "nat \<Rightarrow> int option \<Rightarrow> game \<Rightarrow> bool" where
  "seen_lit k v s =
     (distinct (map peg_id (pegs s)) \<and> map peg_id (pegsRef s) = map peg_id (pegs s)
      \<and> k < length (pegs s)
      \<and> hit (pegsRef s ! k) \<and> num (pegsRef s ! k) = v
      \<and> hit (pegs s ! k) \<and> num (pegs s ! k) = v)"

text \<open>\<open>n\<close> frames 16 ms apart, the first one 16 ms after time 0.\<close>

definition frames_16ms :: "nat \<Rightarrow> event list" where
  "frames_16ms n = map (\<lambda>i. Frame (16 * real (Suc i))) [0..<n]"

section \<open>Example states\<close>

text \<open>Concrete inputs on which the theorems below are exercised.\<close>

definition half_random :: random_source where
  "half_random = (\<lambda>k. 1 / 2)"

definition example_card :: "cell list list" where
  "example_card =
     [[Num 1, Num 16, Num 31, Num 46, Num 61],
      [Num 2, Num 17, Num 32, Num 47, Num 62],
      [Num 3, Num 18, FREE, Num 48, Num 63],
      [Num 4, Num 19, Num 34, Num 49, Num 64],
      [Num 5, Num 20, Num 35, Num 50, Num 65]]"

definition lit_peg :: peg where
  "lit_peg = \<lparr> peg_id = ''peg-0'', peg_x = Fin 0.5, peg_y = Fin 0.5, removed = False,
               hit = True, num = Some 17 \<rparr>"

definition dark_peg :: peg where
  "dark_peg = \<lparr> peg_id = ''peg-1'', peg_x = Fin 0.3, peg_y = Fin 0.7, removed = False,
                hit = False, num = None \<rparr>"

text \<open>A ball at rest at the top, placed at \<open>x = 0.2\<close>, with no positioning gesture open.\<close>

definition idle_game :: game where
  "idle_game =
     \<lparr> card_grid = example_card, marked = {}, pegs = [lit_peg, dark_peg],
       pegsRef = [lit_peg, dark_peg], ballsLeft = 5,
       ball = \<lparr> ball_x = 0.2, ball_y = 0.06, ball_vx = 0, ball_vy = 0, dropping = False \<rparr>,
       hitPegIds = {}, lastUpdate = 0, isPositioning = False, rng = 0 \<rparr>"

text \<open>The same with the positioning gesture open, as \<open>handleStart\<close> leaves it.\<close>

definition positioned_game :: game where
  "positioned_game = idle_game\<lparr>isPositioning := True\<rparr>"

text \<open>A ball that has drained after touching the first peg.\<close>

definition settled_game :: game where
  "settled_game =
     \<lparr> card_grid = example_card, marked = {}, pegs = [lit_peg, dark_peg],
       pegsRef = [lit_peg, dark_peg], ballsLeft = 4,
       ball = \<lparr> ball_x = 0.5, ball_y = 1.06, ball_vx = 0, ball_vy = 0, dropping = False \<rparr>,
       hitPegIds = {''peg-0''}, lastUpdate = 0, isPositioning = False, rng = 0 \<rparr>"

text \<open>A ball falling fast just above the drain line.\<close>

definition falling_game :: game where
  "falling_game =
     \<lparr> card_grid = example_card, marked = {}, pegs = [lit_peg, dark_peg],
       pegsRef = [lit_peg, dark_peg], ballsLeft = 4,
       ball = \<lparr> ball_x = 0.5, ball_y = 1.05, ball_vx = 0, ball_vy = 1, dropping = True \<rparr>,
       hitPegIds = {''peg-0''}, lastUpdate = 0, isPositioning = False, rng = 0 \<rparr>"

text \<open>
  A ball almost at rest, 0.045 above an unlit peg, and a random source whose first four
  draws are 0, 0, 0.9 and 0.63.
\<close>

definition unlit_peg :: peg where
  "unlit_peg = \<lparr> peg_id = ''peg-0'', peg_x = Fin 0.5, peg_y = Fin 0.5, removed = False,
                 hit = False, num = None \<rparr>"

definition contact_game :: game where
  "contact_game =
     \<lparr> card_grid = example_card, marked = {}, pegs = [unlit_peg], pegsRef = [unlit_peg],
       ballsLeft = 4,
       ball = \<lparr> ball_x = 0.5, ball_y = 0.455, ball_vx = 0, ball_vy = 0, dropping = True \<rparr>,
       hitPegIds = {}, lastUpdate = 0, isPositioning = False, rng = 0 \<rparr>"

definition relight_random :: random_source where
  "relight_random = (\<lambda>k. if k = 0 then 0 else if k = 1 then 0 else if k = 2 then 0.9 else 0.63)"

section \<open>Cleanup\<close>

lemma cleanup_map_fst:
  "fst (cleanup_map H ps hn) =
     map (\<lambda>p. if peg_id p \<in> H then p\<lparr>removed := True\<rparr> else p) ps"
  by (induction ps arbitrary: hn) (auto simp: split_beta Let_def)

lemma cleanup_map_snd:
  "snd (cleanup_map H ps hn) =
     hn @ map (the \<circ> num) (filter (\<lambda>p. \<not> removed p \<and> peg_id p \<in> H \<and> num p \<noteq> None) ps)"
  by (induction ps arbitrary: hn) (auto simp: split_beta Let_def split: option.splits)

lemma foldl_markNumber_pegs [simp]: "pegs (foldl (\<lambda>t n. markNumber n t) s ns) = pegs s"
  by (induction ns arbitrary: s) (auto simp: markNumber_def)

lemma foldl_markNumber_pegsRef [simp]:
  "pegsRef (foldl (\<lambda>t n. markNumber n t) s ns) = pegsRef s"
  by (induction ns arbitrary: s) (auto simp: markNumber_def)

lemma foldl_markNumber_card [simp]:
  "card_grid (foldl (\<lambda>t n. markNumber n t) s ns) = card_grid s"
  by (induction ns arbitrary: s) (auto simp: markNumber_def)

lemma foldl_markNumber_ball [simp]: "ball (foldl (\<lambda>t n. markNumber n t) s ns) = ball s"
  by (induction ns arbitrary: s) (auto simp: markNumber_def)

lemma foldl_markNumber_marked:
  "marked (foldl (\<lambda>t n. markNumber n t) s ns) = marked s \<union> (set ns \<inter> set (pool s))"
  by (induction ns arbitrary: s) (auto simp: markNumber_def pool_def)

lemma step_cleanup:
  assumes "\<not> dropping (ball s)" "ball_y (ball s) \<ge> 1.05" "hitPegIds s \<noteq> {}"
  shows "step rnd now s =
     (snd (cleanup_map (hitPegIds s) (pegsRef s) []),
      (foldl (\<lambda>t n. markNumber n t) (s\<lparr>lastUpdate := now\<rparr>)
         (snd (cleanup_map (hitPegIds s) (pegsRef s) [])))
        \<lparr>pegs := fst (cleanup_map (hitPegIds s) (pegsRef s) []), hitPegIds := {}\<rparr>)"
  using assms by (simp add: step_def Let_def split_beta)

lemma step_idle:
  assumes "\<not> dropping (ball s)" "\<not> (ball_y (ball s) \<ge> 1.05 \<and> hitPegIds s \<noteq> {})"
  shows "step rnd now s = ([], s\<lparr>lastUpdate := now\<rparr>)"
  using assms by (auto simp add: step_def Let_def split_beta)



text \<open>
  Claim C9. When the cleanup has run, the next frame, with no drop in between, passes no
  number to \<open>markNumber\<close> and leaves pegs and marked set as they are; and the cleanup
  \<open>map\<close> itself, run again over the cleaned pegs with the same touched set, returns the
  same pegs and pushes no number.
\<close>

theorem cleanup_idempotent:
  assumes "\<not> dropping (ball s)" "ball_y (ball s) \<ge> 1.05" "hitPegIds s \<noteq> {}"
  shows "fst (step rnd now' (snd (step rnd now s))) = []
       \<and> pegs (snd (step rnd now' (snd (step rnd now s)))) = pegs (snd (step rnd now s))
       \<and> marked (snd (step rnd now' (snd (step rnd now s)))) = marked (snd (step rnd now s))
       \<and> cleanup_map (hitPegIds s) (pegs (snd (step rnd now s))) []
           = (pegs (snd (step rnd now s)), [])"
proof -
  let ?s1 = "snd (step rnd now s)"
  have s1: "\<not> dropping (ball ?s1)" "hitPegIds ?s1 = {}"
    using assms by (simp_all add: step_cleanup)
  then have idle: "step rnd now' ?s1 = ([], ?s1\<lparr>lastUpdate := now'\<rparr>)"
    by (simp add: step_idle)
  have p1: "pegs ?s1 =
      map (\<lambda>p. if peg_id p \<in> hitPegIds s then p\<lparr>removed := True\<rparr> else p) (pegsRef s)"
    using assms by (simp add: step_cleanup cleanup_map_fst)
  have "fst (cleanup_map (hitPegIds s) (pegs ?s1) []) = pegs ?s1"
    unfolding cleanup_map_fst p1 by (simp add: comp_def)
  moreover have "snd (cleanup_map (hitPegIds s) (pegs ?s1) []) = []"
    unfolding cleanup_map_snd p1 by (simp add: filter_map comp_def)
  ultimately have "cleanup_map (hitPegIds s) (pegs ?s1) [] = (pegs ?s1, [])"
    by (simp add: prod_eq_iff)
  with idle show ?thesis by simp
qed

theorem cleanup_idempotent_witness:
  "\<not> dropping (ball settled_game) \<and> ball_y (ball settled_game) \<ge> 1.05
   \<and> hitPegIds settled_game \<noteq> {}
   \<and> fst (step half_random 32 (snd (step half_random 16 settled_game))) = []
   \<and> pegs (snd (step half_random 32 (snd (step half_random 16 settled_game))))
       = pegs (snd (step half_random 16 settled_game))"
proof -
  have h: "\<not> dropping (ball settled_game)" "ball_y (ball settled_game) \<ge> 1.05"
    "hitPegIds settled_game \<noteq> {}"
    by (simp_all add: settled_game_def)
  show ?thesis
    using cleanup_idempotent [OF h, of half_random 32 16] h by blast
qed

section \<open>The marked set\<close>

lemma step_card_grid [simp]: "card_grid (snd (step rnd now s)) = card_grid s"
  by (simp add: step_def Let_def split_beta)

lemma step_marked: "marked (snd (step rnd now s)) \<subseteq> marked s \<union> set (pool s)"
  by (auto simp add: step_def Let_def split_beta foldl_markNumber_marked pool_def)

lemma apply_event_marked_subset_pool:
  assumes "marked s \<subseteq> set (pool s)"
  shows "marked (apply_event rnd s e) \<subseteq> set (pool (apply_event rnd s e))"
proof (cases e)
  case (Frame now)
  then show ?thesis using assms step_marked [of rnd now s] by (auto simp: pool_def)
next
  case PegsEffect
  then show ?thesis using assms by (simp add: pegsEffect_def pool_def)
next
  case (PointerStart ratio)
  then show ?thesis using assms by (simp add: handleStart_def pool_def)
next
  case (PointerMove ratio)
  then show ?thesis using assms by (simp add: handleMove_def pool_def)
next
  case PointerEnd
  then show ?thesis using assms by (simp add: handleEnd_def pool_def)
next
  case ResetBoard
  then show ?thesis using assms by (simp add: resetBoard_def pool_def split_beta)
next
  case (NewGame newCard)
  then show ?thesis by (simp add: newGame_def resetBoard_def pool_def split_beta)
qed

lemma run_marked_subset_pool:
  "marked s \<subseteq> set (pool s) \<Longrightarrow> marked (run rnd es s) \<subseteq> set (pool (run rnd es s))"
  unfolding run_def
  by (induction es arbitrary: s) (simp_all add: apply_event_marked_subset_pool)

text \<open>
  Claim C10. \<open>markNumber\<close> with a number that is not in the pool of the card changes
  nothing; and when the marked set is within the pool, it is within the pool of the
  current card after every sequence of frames, pointer events, board resets and new games
  (a new game replaces the card and empties the marked set).
\<close>

theorem marked_within_pool:
  "(n \<notin> set (pool s) \<longrightarrow> markNumber n s = s)
   \<and> (marked s \<subseteq> set (pool s) \<longrightarrow> marked (run rnd es s) \<subseteq> set (pool (run rnd es s)))"
  by (simp add: markNumber_def run_marked_subset_pool)

theorem marked_within_pool_witness:
  "75 \<notin> set (pool settled_game) \<and> markNumber 75 settled_game = settled_game
   \<and> marked settled_game \<subseteq> set (pool settled_game)
   \<and> marked (run half_random [Frame 16, PointerStart 0.4, PointerEnd, Frame 32] settled_game)
       \<subseteq> set (pool (run half_random [Frame 16, PointerStart 0.4, PointerEnd, Frame 32]
                  settled_game))"
proof -
  have a: "75 \<notin> set (pool settled_game)"
    by (simp add: pool_def settled_game_def example_card_def cardNumberPool_def)
  have b: "marked settled_game \<subseteq> set (pool settled_game)"
    by (simp add: settled_game_def)
  show ?thesis
    using marked_within_pool [of 75 settled_game half_random
        "[Frame 16, PointerStart 0.4, PointerEnd, Frame 32]"] a b
    by blast
qed

section \<open>Release\<close>

lemma step_ball_idle: "\<not> dropping (ball s) \<Longrightarrow> ball (snd (step rnd now s)) = ball s"
  by (simp add: step_def Let_def split_beta)

text \<open>
  Claim C7, as stated, fails: \<open>handleEnd\<close> first tests \<open>isPositioningRef\<close>, and with no
  positioning gesture open it returns at once. The ball of \<open>idle_game\<close> is at rest and
  five balls are left, and the release changes neither.
\<close>

theorem release_without_gesture_counterexample:
  "\<not> dropping (ball idle_game) \<and> ballsLeft idle_game = 5
   \<and> ballsLeft (handleEnd half_random idle_game) = 5
   \<and> \<not> dropping (ball (handleEnd half_random idle_game))"
  by (simp add: idle_game_def handleEnd_def)

text \<open>
  Claim C7, amended. A release while no positioning gesture is open, while the ball is
  dropping or while no ball is left changes neither ball, pegs, balls left nor touched
  set. A release that ends a positioning gesture, with the ball at rest and a ball
  left, takes one from the balls left, empties the touched set, sets the vertical
  velocity to 0.02 and the horizontal velocity to \<open>(r - 0.5) \<cdot> 0.18\<close> for the next random
  draw \<open>r\<close>, which lies in \<open>[-0.09, 0.09)\<close>, and sets \<open>dropping\<close>; the pegs stay as they are.
\<close>

theorem release_guarded:
  "(\<not> isPositioning s \<or> dropping (ball s) \<or> ballsLeft s \<le> 0 \<longrightarrow>
      ball (handleEnd rnd s) = ball s \<and> pegs (handleEnd rnd s) = pegs s
      \<and> ballsLeft (handleEnd rnd s) = ballsLeft s \<and> hitPegIds (handleEnd rnd s) = hitPegIds s)
   \<and> (isPositioning s \<and> \<not> dropping (ball s) \<and> ballsLeft s > 0 \<longrightarrow>
      ballsLeft (handleEnd rnd s) = ballsLeft s - 1
      \<and> hitPegIds (handleEnd rnd s) = {}
      \<and> pegs (handleEnd rnd s) = pegs s
      \<and> ball_vy (ball (handleEnd rnd s)) = 0.02
      \<and> ball_vx (ball (handleEnd rnd s)) = (rnd (rng s) - 0.5) * 0.18
      \<and> (0 \<le> rnd (rng s) \<and> rnd (rng s) < 1 \<longrightarrow>
            - 0.09 \<le> ball_vx (ball (handleEnd rnd s)) \<and> ball_vx (ball (handleEnd rnd s)) < 0.09)
      \<and> dropping (ball (handleEnd rnd s)))"
  by (auto simp add: handleEnd_def)

theorem release_guarded_witness:
  "dropping (ball falling_game)
   \<and> ball (handleEnd half_random falling_game) = ball falling_game
   \<and> ballsLeft (handleEnd half_random falling_game) = 4
   \<and> isPositioning positioned_game \<and> \<not> dropping (ball positioned_game)
   \<and> ballsLeft positioned_game > 0
   \<and> 0 \<le> half_random (rng positioned_game) \<and> half_random (rng positioned_game) < 1
   \<and> ballsLeft (handleEnd half_random positioned_game) = 4
   \<and> hitPegIds (handleEnd half_random positioned_game) = {}
   \<and> ball_vy (ball (handleEnd half_random positioned_game)) = 0.02
   \<and> ball_vx (ball (handleEnd half_random positioned_game)) = 0
   \<and> dropping (ball (handleEnd half_random positioned_game))"
  using release_guarded [of falling_game half_random]
    release_guarded [of positioned_game half_random]
  by (simp add: falling_game_def positioned_game_def idle_game_def half_random_def)

text \<open>
  Claim C8, as stated, fails. The release keeps the \<open>x\<close> the player has chosen: the ball
  of \<open>positioned_game\<close> is released at \<open>x = 0.2\<close>, not at the centre 0.5. And the cleanup
  does not move the ball: in \<open>settled_game\<close> the cleanup frame passes the number 17 on and
  leaves the ball at \<open>y = 1.06\<close>.
\<close>

theorem release_keeps_x_counterexample:
  "isPositioning positioned_game \<and> \<not> dropping (ball positioned_game)
   \<and> ballsLeft positioned_game > 0
   \<and> dropping (ball (handleEnd half_random positioned_game))
   \<and> ball_x (ball (handleEnd half_random positioned_game)) = 0.2
   \<and> ball_x (ball (handleEnd half_random positioned_game)) \<noteq> 0.5
   \<and> fst (step half_random 16 settled_game) = [17]
   \<and> ball_y (ball (snd (step half_random 16 settled_game))) = 1.06
   \<and> ball_y (ball (snd (step half_random 16 settled_game))) \<noteq> 0.06"
proof -
  have "\<not> dropping (ball settled_game)" "ball_y (ball settled_game) \<ge> 1.05"
    "hitPegIds settled_game \<noteq> {}"
    by (simp_all add: settled_game_def)
  then have "fst (step half_random 16 settled_game) = [17]"
    by (simp add: step_cleanup cleanup_map_snd)
      (simp add: settled_game_def lit_peg_def dark_peg_def)
  moreover have "ball (snd (step half_random 16 settled_game)) = ball settled_game"
    by (rule step_ball_idle) (simp add: settled_game_def)
  ultimately show ?thesis
    by (simp add: positioned_game_def idle_game_def handleEnd_def settled_game_def)
qed

text \<open>
  Claim C8, amended. A release that ends a positioning gesture, with the ball at rest and
  a ball left, sets \<open>y\<close> to the spawn height 0.06, the vertical velocity to 0.02, the
  horizontal velocity to \<open>(r - 0.5) \<cdot> 0.18\<close> for the next random draw \<open>r\<close> and \<open>dropping\<close> to
  true, and keeps \<open>x\<close>. A frame with the ball at rest, the cleanup frame among them,
  leaves the ball as it is. \<open>resetBoard\<close> and \<open>newGame\<close> put the ball at the top centre
  \<open>(0.5, 0.06)\<close> with no velocity.
\<close>

theorem release_spawn:
  "(isPositioning s \<and> \<not> dropping (ball s) \<and> ballsLeft s > 0 \<longrightarrow>
      ball (handleEnd rnd s) =
        \<lparr> ball_x = ball_x (ball s), ball_y = 0.06, ball_vx = (rnd (rng s) - 0.5) * 0.18,
          ball_vy = 0.02, dropping = True \<rparr>)
   \<and> (\<not> dropping (ball s) \<longrightarrow> ball (snd (step rnd now s)) = ball s)
   \<and> ball (resetBoard rnd s) =
        \<lparr> ball_x = 0.5, ball_y = 0.06, ball_vx = 0, ball_vy = 0, dropping = False \<rparr>
   \<and> ball (newGame rnd newCard s) =
        \<lparr> ball_x = 0.5, ball_y = 0.06, ball_vx = 0, ball_vy = 0, dropping = False \<rparr>"
  by (simp add: handleEnd_def step_ball_idle resetBoard_def newGame_def spawn_ball_def split_beta)

theorem release_spawn_witness:
  "isPositioning positioned_game \<and> \<not> dropping (ball positioned_game)
   \<and> ballsLeft positioned_game > 0
   \<and> ball (handleEnd half_random positioned_game) =
        \<lparr> ball_x = 0.2, ball_y = 0.06, ball_vx = 0, ball_vy = 0.02, dropping = True \<rparr>
   \<and> \<not> dropping (ball settled_game)
   \<and> ball (snd (step half_random 16 settled_game)) = ball settled_game"
  using release_spawn [of positioned_game half_random]
    release_spawn [of settled_game half_random 16]
  by (simp add: positioned_game_def idle_game_def settled_game_def half_random_def)

section \<open>The physics frame\<close>

lemma step_dropping:
  assumes "dropping (ball s)"
    and "walls (integrate (min 0.02 ((now - lastUpdate s) / 1000)) (ball s)) = (x, y, vx, vy)"
    and "peg_scan rnd (pool s) (marked s) x y (pegsRef s) (scan0 s) = sc"
    and "bounce (sc_closest sc) (x, y, vx, vy) = (x', y', vx', vy')"
  shows "step rnd now s =
     ([], s\<lparr>lastUpdate := now,
             pegs := (if sc_updates sc \<noteq> [] then apply_updates (sc_updates sc) (pegs s)
                      else pegs s),
             hitPegIds := sc_hitIds sc,
             rng := sc_k sc,
             ball := (if y' > 1.06
                      then (ball s)\<lparr>ball_x := x', ball_y := 1.06, ball_vx := 0, ball_vy := 0,
                                     dropping := False\<rparr>
                      else \<lparr> ball_x = x', ball_y = y', ball_vx = vx', ball_vy = vy',
                             dropping = True \<rparr>)\<rparr>)"
  using assms by (simp add: step_def Let_def pool_def scan0_def)

lemma clamp_bounds: "a \<le> b \<Longrightarrow> a \<le> clamp v a b \<and> clamp v a b \<le> b"
  by (simp add: clamp_def)

lemma walls_bounds:
  assumes "walls q = (x, y, vx, vy)"
  shows "0.03 \<le> x \<and> x \<le> 0.97 \<and> 0.03 \<le> y"
  using assms by (auto simp: walls_def rBall_def Let_def split: prod.splits if_splits)


lemma bounce_bounds:
  assumes "bounce c (x, y, vx, vy) = (x', y', vx', vy')" "0.03 \<le> x" "x \<le> 0.97" "0.03 \<le> y"
  shows "0.03 \<le> x' \<and> x' \<le> 0.97 \<and> 0.03 \<le> y'"
proof (cases "bounce c (x, y, vx, vy) = (x, y, vx, vy)")
  case True
  with assms show ?thesis by simp
next
  case False
  then obtain u w where "x' = clamp u 0.03 0.97" "y' = clamp w 0.03 1.1"
    using assms(1)
    by (auto simp: bounce_def Let_def split: option.splits jsnum.splits if_splits)
  then show ?thesis
    using clamp_bounds [of "0.03" "0.97" u] clamp_bounds [of "0.03" "1.1" w] by simp
qed

text \<open>After a frame with a dropping ball, the ball is within \<open>[0.03, 0.97] \<times> [0.03, 1.06]\<close>.\<close>

lemma step_ball_bounds:
  assumes "dropping (ball s)"
  shows "0.03 \<le> ball_x (ball (snd (step rnd now s)))
       \<and> ball_x (ball (snd (step rnd now s))) \<le> 0.97
       \<and> 0.03 \<le> ball_y (ball (snd (step rnd now s)))
       \<and> ball_y (ball (snd (step rnd now s))) \<le> 1.06"
proof -
  obtain x y vx vy where
    w: "walls (integrate (min 0.02 ((now - lastUpdate s) / 1000)) (ball s)) = (x, y, vx, vy)"
    by (metis prod_cases4)
  obtain sc where sc: "peg_scan rnd (pool s) (marked s) x y (pegsRef s) (scan0 s) = sc"
    by simp
  obtain x' y' vx' vy' where b: "bounce (sc_closest sc) (x, y, vx, vy) = (x', y', vx', vy')"
    by (metis prod_cases4)
  have wb: "0.03 \<le> x \<and> x \<le> 0.97 \<and> 0.03 \<le> y" using walls_bounds [OF w] .
  have bb: "0.03 \<le> x' \<and> x' \<le> 0.97 \<and> 0.03 \<le> y'" using bounce_bounds [OF b] wb by simp
  show ?thesis
    unfolding step_dropping [OF assms w sc b] using bb by simp
qed

lemma apply_event_in_bounds:
  assumes "in_bounds (ball s)"
  shows "in_bounds (ball (apply_event rnd s e))"
proof (cases e)
  case (Frame now)
  show ?thesis
  proof (cases "dropping (ball s)")
    case True
    from step_ball_bounds [OF True, of rnd now] show ?thesis
      unfolding Frame by (simp add: in_bounds_def)
  next
    case False
    then show ?thesis using assms Frame by (simp add: step_ball_idle)
  qed
next
  case PegsEffect
  then show ?thesis using assms by (simp add: pegsEffect_def)
next
  case (PointerStart ratio)
  then show ?thesis using assms clamp_bounds [of "0.06" "0.94" ratio]
    by (simp add: handleStart_def in_bounds_def)
next
  case (PointerMove ratio)
  then show ?thesis using assms clamp_bounds [of "0.06" "0.94" ratio]
    by (simp add: handleMove_def in_bounds_def)
next
  case PointerEnd
  then show ?thesis using assms by (simp add: handleEnd_def in_bounds_def)
next
  case ResetBoard
  then show ?thesis by (simp add: resetBoard_def in_bounds_def spawn_ball_def split_beta)
next
  case (NewGame newCard)
  then show ?thesis
    by (simp add: newGame_def resetBoard_def in_bounds_def spawn_ball_def split_beta)
qed

text \<open>
  Claim C3. From a state whose ball is within \<open>x \<in> [0, 1]\<close>, \<open>y \<in> [0, 1.1]\<close>, the ball is
  within these bounds after every sequence of events: frames at any times, and so 10,000
  frames 16 ms apart, with pointer events, board resets and new games between them or
  without.
\<close>

theorem ball_stays_in_bounds:
  assumes "in_bounds (ball s)"
  shows "in_bounds (ball (run rnd es s))"
  using assms unfolding run_def
  by (induction es arbitrary: s) (simp_all add: apply_event_in_bounds)

theorem ball_stays_in_bounds_witness:
  "in_bounds (ball falling_game)
   \<and> in_bounds (ball (run half_random (frames_16ms 10000) falling_game))"
proof -
  have h: "in_bounds (ball falling_game)"
    by (simp add: in_bounds_def falling_game_def)
  show ?thesis
    using ball_stays_in_bounds [OF h, of half_random "frames_16ms 10000"] h by blast
qed

section \<open>Drain\<close>









section \<open>Peg generation\<close>

lemma loop_index_step:
  fixes idx idx' count d :: nat
  assumes "idx' = (if count \<le> idx + 1 then idx + 1 else min count (idx + 1 + (d - 1)))"
    "1 \<le> d" "idx < count"
  shows "idx' = min count (idx + d) \<and> idx < idx'"
  using assms by (auto simp: min_def split: if_splits)

lemma generatePegs_cols_spec:
  "case generatePegs_cols rnd count rows r c (idx, k, ps) of (idx', k', ps') \<Rightarrow>
     idx' = (if count \<le> idx then idx else min count (idx + (cols - c)))
     \<and> k' = k + 2 * (idx' - idx)
     \<and> length ps' = length ps + (idx' - idx)
     \<and> map peg_id ps' = map peg_id ps @ map (\<lambda>i. ''peg-'' @ string_of_nat i) [idx..<idx']
     \<and> (\<forall>p\<in>set ps'. p \<in> set ps \<or> (\<exists>k c i. p = make_peg rnd k rows r c i))"
proof (induction rnd count rows r c "(idx, k, ps)" arbitrary: idx k ps
    rule: generatePegs_cols.induct)
  case (1 rnd count rows r c idx k ps)
  show ?case
  proof (cases "c < cols \<and> idx < count")
    case False
    then show ?thesis
      by (subst generatePegs_cols.simps) auto
  next
    case True
    then have step: "generatePegs_cols rnd count rows r c (idx, k, ps) =
        generatePegs_cols rnd count rows r (c + 1)
          (idx + 1, k + 2, ps @ [make_peg rnd k rows r c idx])"
      by (subst generatePegs_cols.simps) simp
    obtain idx' k' ps' where res: "generatePegs_cols rnd count rows r (c + 1)
          (idx + 1, k + 2, ps @ [make_peg rnd k rows r c idx]) = (idx', k', ps')"
      by (metis prod_cases3)
    from True have "case generatePegs_cols rnd count rows r (c + 1)
          (idx + 1, k + 2, ps @ [make_peg rnd k rows r c idx]) of (idx', k', ps') \<Rightarrow>
       idx' = (if count \<le> idx + 1 then idx + 1 else min count (idx + 1 + (cols - (c + 1))))
       \<and> k' = k + 2 + 2 * (idx' - (idx + 1))
       \<and> length ps' = length (ps @ [make_peg rnd k rows r c idx]) + (idx' - (idx + 1))
       \<and> map peg_id ps' = map peg_id (ps @ [make_peg rnd k rows r c idx])
            @ map (\<lambda>i. ''peg-'' @ string_of_nat i) [idx + 1..<idx']
       \<and> (\<forall>p\<in>set ps'. p \<in> set (ps @ [make_peg rnd k rows r c idx])
            \<or> (\<exists>k c i. p = make_peg rnd k rows r c i))"
      by (intro "1.hyps") auto
    then have ih:
       "idx' = (if count \<le> idx + 1 then idx + 1 else min count (idx + 1 + (cols - (c + 1))))"
       "k' = k + 2 + 2 * (idx' - (idx + 1))"
       "length ps' = length (ps @ [make_peg rnd k rows r c idx]) + (idx' - (idx + 1))"
       "map peg_id ps' = map peg_id (ps @ [make_peg rnd k rows r c idx])
            @ map (\<lambda>i. ''peg-'' @ string_of_nat i) [idx + 1..<idx']"
       "\<forall>p\<in>set ps'. p \<in> set (ps @ [make_peg rnd k rows r c idx])
            \<or> (\<exists>k c i. p = make_peg rnd k rows r c i)"
      unfolding res prod.case by blast+
    from True have d: "cols - (c + 1) = (cols - c) - 1" "1 \<le> cols - c" "idx < count"
      by arith+
    have A0: "idx' = min count (idx + (cols - c)) \<and> idx < idx'"
      by (rule loop_index_step [OF ih(1) [unfolded d(1)] d(2,3)])
    then have A: "idx' = min count (idx + (cols - c))" and lt: "idx < idx'"
      by blast+
    from ih(2) lt have B1: "k' = k + 2 * (idx' - idx)" by arith
    from ih(3) lt have B2: "length ps' = length ps + (idx' - idx)" by simp
    have "peg_id (make_peg rnd k rows r c idx) = ''peg-'' @ string_of_nat idx"
      by (simp add: make_peg_def Let_def)
    moreover from lt have "[idx..<idx'] = idx # [idx + 1..<idx']"
      by (simp add: upt_conv_Cons)
    ultimately have C: "map peg_id ps' = map peg_id ps
        @ map (\<lambda>i. ''peg-'' @ string_of_nat i) [idx..<idx']"
      using ih(4) by simp
    from ih(5) have D: "\<forall>p\<in>set ps'. p \<in> set ps \<or> (\<exists>k c i. p = make_peg rnd k rows r c i)"
      by auto
    from d(3) have nle: "\<not> count \<le> idx" by simp
    show ?thesis
      unfolding step res prod.case if_not_P [OF nle]
      using A B1 B2 C D by blast
  qed
qed


lemma rows_index_step:
  fixes idx i1 idx' count c m :: nat
  assumes "i1 = (if count \<le> idx then idx else min count (idx + c))"
    and "idx' = (if count \<le> i1 then i1 else min count (i1 + c * m))"
  shows "idx' = (if count \<le> idx then idx else min count (idx + c * Suc m))
       \<and> idx \<le> i1 \<and> i1 \<le> idx'"
  using assms by (auto simp: min_def split: if_splits)

lemma upt_split: "i \<le> j \<Longrightarrow> j \<le> k \<Longrightarrow> [i..<j] @ [j..<k] = [i..<k]"
  by (metis le_Suc_ex upt_add_eq_append)

lemma generatePegs_rows_spec:
  assumes "generatePegs_rows rnd count rows r st = (idx', k', ps')" "st = (idx, k, ps)"
  shows "idx' = (if count \<le> idx then idx else min count (idx + cols * (rows - r)))
     \<and> k' = k + 2 * (idx' - idx)
     \<and> length ps' = length ps + (idx' - idx)
     \<and> map peg_id ps' = map peg_id ps @ map (\<lambda>i. ''peg-'' @ string_of_nat i) [idx..<idx']
     \<and> (\<forall>p\<in>set ps'. p \<in> set ps
           \<or> (\<exists>r' k c i. r' < rows \<and> p = make_peg rnd k rows r' c i))"
  using assms
proof (induction rnd count rows r st arbitrary: idx k ps rule: generatePegs_rows.induct)
  case (1 rnd count rows r st)
  show ?case
  proof (cases "r < rows")
    case False
    with "1.prems" show ?thesis
      by (subst (asm) generatePegs_rows.simps) auto
  next
    case True
    obtain i1 k1 p1 where inner: "generatePegs_cols rnd count rows r 0 (idx, k, ps) = (i1, k1, p1)"
      by (metis prod_cases3)
    from generatePegs_cols_spec [where rnd = rnd and count = count and rows = rows and r = r
        and c = 0 and idx = idx and k = k and ps = ps]
    have c:
      "i1 = (if count \<le> idx then idx else min count (idx + cols))"
      "k1 = k + 2 * (i1 - idx)"
      "length p1 = length ps + (i1 - idx)"
      "map peg_id p1 = map peg_id ps @ map (\<lambda>i. ''peg-'' @ string_of_nat i) [idx..<i1]"
      "\<forall>p\<in>set p1. p \<in> set ps \<or> (\<exists>k c i. p = make_peg rnd k rows r c i)"
      unfolding inner prod.case by simp_all
    from "1.prems" True inner
    have outer: "generatePegs_rows rnd count rows (r + 1) (i1, k1, p1) = (idx', k', ps')"
      by (subst (asm) generatePegs_rows.simps) simp
    from "1.prems"(2) inner
    have "generatePegs_cols rnd count rows r 0 st = (i1, k1, p1)" by simp
    from "1.IH" [OF True outer [folded this] this]
    have o:
      "idx' = (if count \<le> i1 then i1 else min count (i1 + cols * (rows - (r + 1))))"
      "k' = k1 + 2 * (idx' - i1)"
      "length ps' = length p1 + (idx' - i1)"
      "map peg_id ps' = map peg_id p1 @ map (\<lambda>i. ''peg-'' @ string_of_nat i) [i1..<idx']"
      "\<forall>p\<in>set ps'. p \<in> set p1 \<or> (\<exists>r' k c i. r' < rows \<and> p = make_peg rnd k rows r' c i)"
      by blast+
    from True have m: "rows - r = Suc (rows - (r + 1))" by arith
    from rows_index_step [OF c(1) o(1)]
    have A: "idx' = (if count \<le> idx then idx else min count (idx + cols * (rows - r)))"
      and le: "idx \<le> i1" "i1 \<le> idx'"
      unfolding m by blast+
    from c(2) o(2) le have B1: "k' = k + 2 * (idx' - idx)" by arith
    from c(3) o(3) le have B2: "length ps' = length ps + (idx' - idx)" by arith
    from c(4) o(4) upt_split [OF le]
    have C: "map peg_id ps' = map peg_id ps @ map (\<lambda>i. ''peg-'' @ string_of_nat i) [idx..<idx']"
      by (metis append.assoc map_append)
    from c(5) o(5) True
    have D: "\<forall>p\<in>set ps'. p \<in> set ps
           \<or> (\<exists>r' k c i. r' < rows \<and> p = make_peg rnd k rows r' c i)"
      by blast
    from A B1 B2 C D show ?thesis by blast
  qed
qed


lemma digit_char_inj: "a < 10 \<Longrightarrow> b < 10 \<Longrightarrow> digit_char a = digit_char b \<Longrightarrow> a = b"
  by (simp add: digit_char_def char_of_eq_iff take_bit_eq_mod)

lemma string_of_nat_nonempty: "string_of_nat n \<noteq> []"
  by (subst string_of_nat.simps) simp

lemma string_of_nat_inj: "string_of_nat m = string_of_nat n \<Longrightarrow> m = n"
proof (induction m arbitrary: n rule: string_of_nat.induct)
  case (1 m)
  show ?case
  proof (cases "m < 10")
    case True
    then have m: "string_of_nat m = [digit_char m]" by (subst string_of_nat.simps) simp
    show ?thesis
    proof (cases "n < 10")
      case n: True
      then have "string_of_nat n = [digit_char n]" by (subst string_of_nat.simps) simp
      with m "1.prems" True n show ?thesis by (auto dest: digit_char_inj)
    next
      case n: False
      then have "string_of_nat n = string_of_nat (n div 10) @ [digit_char (n mod 10)]"
        by (subst string_of_nat.simps) simp
      with m "1.prems" string_of_nat_nonempty [of "n div 10"] show ?thesis by simp
    qed
  next
    case False
    then have m: "string_of_nat m = string_of_nat (m div 10) @ [digit_char (m mod 10)]"
      by (subst string_of_nat.simps) simp
    show ?thesis
    proof (cases "n < 10")
      case n: True
      then have "string_of_nat n = [digit_char n]" by (subst string_of_nat.simps) simp
      with m "1.prems" string_of_nat_nonempty [of "m div 10"] show ?thesis by simp
    next
      case n: False
      then have "string_of_nat n = string_of_nat (n div 10) @ [digit_char (n mod 10)]"
        by (subst string_of_nat.simps) simp
      with m "1.prems" have eq: "string_of_nat (m div 10) = string_of_nat (n div 10)"
        "digit_char (m mod 10) = digit_char (n mod 10)" by simp_all
      from "1.IH" [OF False eq(1)] have "m div 10 = n div 10" .
      moreover from eq(2) have "m mod 10 = n mod 10"
        by (intro digit_char_inj) simp_all
      ultimately show ?thesis by (metis div_mult_mod_eq)
    qed
  qed
qed


lemma rows_cover: "count \<le> cols * nat \<lceil>real count / real cols\<rceil>"
proof -
  have "real count / 6 \<le> real_of_int \<lceil>real count / 6\<rceil>" by (rule le_of_int_ceiling)
  then have "real count \<le> 6 * real_of_int \<lceil>real count / 6\<rceil>" by linarith
  moreover have "0 \<le> \<lceil>real count / 6\<rceil>" by simp
  ultimately have "real count \<le> real (6 * nat \<lceil>real count / 6\<rceil>)" by simp
  then have "count \<le> 6 * nat \<lceil>real count / 6\<rceil>" by linarith
  then show ?thesis by (simp add: cols_def)
qed

lemma generatePegs_spec:
  "length (fst (generatePegs rnd k count)) = count
   \<and> snd (generatePegs rnd k count) = k + 2 * count
   \<and> map peg_id (fst (generatePegs rnd k count)) = map (\<lambda>i. ''peg-'' @ string_of_nat i) [0..<count]
   \<and> (\<forall>p\<in>set (fst (generatePegs rnd k count)).
         \<exists>r' k' c i. r' < nat \<lceil>real count / real cols\<rceil>
            \<and> p = make_peg rnd k' (nat \<lceil>real count / real cols\<rceil>) r' c i)"
proof -
  let ?rows = "nat \<lceil>real count / real cols\<rceil>"
  obtain idx' k' ps' where res: "generatePegs_rows rnd count ?rows 0 (0, k, []) = (idx', k', ps')"
    by (metis prod_cases3)
  note s = generatePegs_rows_spec [OF res refl]
  from s rows_cover [of count] have i: "idx' = count" by (simp add: min_def)
  have g: "generatePegs rnd k count = (ps', k')"
    by (simp add: generatePegs_def Let_def res)
  from s show ?thesis unfolding g i by simp
qed

lemma jclamp_Fin [simp]: "jclamp (Fin v) (Fin a) (Fin b) = Fin (clamp v a b)"
  by (auto simp: jclamp_def jmin_def jmax_def clamp_def)

lemma jclamp_NaN [simp]: "jclamp NaN a b = NaN"
  by (simp add: jclamp_def jmin_def jmax_def)

lemma jclamp_range:
  assumes "jclamp v (Fin a) (Fin b) = Fin w" "a \<le> b"
  shows "a \<le> w \<and> w \<le> b"
  using assms by (cases v) (auto simp: jclamp_def jmin_def jmax_def split: if_splits)

lemma make_peg_fresh:
  "\<not> removed (make_peg rnd k rows r c i) \<and> \<not> hit (make_peg rnd k rows r c i)
   \<and> num (make_peg rnd k rows r c i) = None
   \<and> peg_id (make_peg rnd k rows r c i) = ''peg-'' @ string_of_nat i"
  by (simp add: make_peg_def Let_def)

lemma make_peg_x:
  "\<exists>v. peg_x (make_peg rnd k rows r c i) = Fin v \<and> 0.12 \<le> v \<and> v \<le> 0.88"
proof -
  have "\<exists>u. peg_x (make_peg rnd k rows r c i) = Fin (clamp u 0.12 0.88)"
    by (auto simp add: make_peg_def Let_def)
  then obtain u where "peg_x (make_peg rnd k rows r c i) = Fin (clamp u 0.12 0.88)" ..
  with clamp_bounds [of "0.12" "0.88" u] show ?thesis by simp
qed

lemma make_peg_y_le:
  "peg_y (make_peg rnd k rows r c i) = Fin v \<Longrightarrow> 0.15 \<le> v \<and> v \<le> 0.90"
  using jclamp_range [of _ "0.15" "0.90" v] by (simp add: make_peg_def Let_def)

lemma make_peg_y:
  assumes "2 \<le> rows"
  shows "\<exists>v. peg_y (make_peg rnd k rows r c i) = Fin v \<and> 0.15 \<le> v \<and> v \<le> 0.90"
proof -
  from assms have "real rows - 1 \<noteq> 0" by simp
  then have "\<exists>u. peg_y (make_peg rnd k rows r c i) = Fin (clamp u 0.15 0.90)"
    by (auto simp add: make_peg_def Let_def)
  then obtain u where "peg_y (make_peg rnd k rows r c i) = Fin (clamp u 0.15 0.90)" ..
  with clamp_bounds [of "0.15" "0.90" u] show ?thesis by simp
qed

lemma make_peg_y_one_row: "rows = 1 \<Longrightarrow> peg_y (make_peg rnd k rows 0 c i) = NaN"
  by (simp add: make_peg_def Let_def jinf_def)


lemma map_const_replicate: "\<forall>x\<in>set xs. f x = v \<Longrightarrow> map f xs = replicate (length xs) v"
  by (induction xs) simp_all

lemma rows_of_six: "nat \<lceil>real (6::nat) / real cols\<rceil> = 1"
  by (simp add: cols_def)

lemma rows_many: "6 < count \<Longrightarrow> 2 \<le> nat \<lceil>real count / real cols\<rceil>"
proof -
  assume "6 < count"
  then have "1 < real count / 6" by simp
  then have "1 < \<lceil>real count / 6\<rceil>" by (simp add: less_ceiling_iff)
  then have "2 \<le> \<lceil>real count / 6\<rceil>" by linarith
  then have "2 \<le> nat \<lceil>real count / 6\<rceil>" by linarith
  then show ?thesis by (simp add: cols_def)
qed

lemma in_inset_make_peg:
  assumes "2 \<le> rows"
  shows "in_inset (make_peg rnd k rows r c i)"
proof -
  from make_peg_x [of rnd k rows r c i] make_peg_y [OF assms, of rnd k r c i]
  show ?thesis by (auto simp: in_inset_def jle_def)
qed

text \<open>
  With more than six pegs there are at least two rows, and \<open>generatePegs\<close> returns
  \<open>count\<close> fresh pegs inside the inset rectangle.
\<close>

lemma generatePegs_in_inset:
  assumes "6 < count"
  shows "length (fst (generatePegs rnd k count)) = count
       \<and> (\<forall>p\<in>set (fst (generatePegs rnd k count)).
             \<not> removed p \<and> \<not> hit p \<and> num p = None \<and> in_inset p)"
proof -
  note s = generatePegs_spec [of rnd k count]
  have "\<not> removed p \<and> \<not> hit p \<and> num p = None \<and> in_inset p"
    if "p \<in> set (fst (generatePegs rnd k count))" for p
  proof -
    from s that obtain r' k' c i where
      "p = make_peg rnd k' (nat \<lceil>real count / real cols\<rceil>) r' c i" by blast
    with rows_many [OF assms] show ?thesis
      by (simp add: make_peg_fresh in_inset_make_peg)
  qed
  with s show ?thesis by blast
qed

text \<open>
  Claim C6 at \<open>count = 6\<close>, for every random source: there is one row, the quotient
  \<open>r / (rows - 1)\<close> is \<open>0 / 0\<close>, and all six pegs get the \<open>y\<close> coordinate NaN, which
  fails every comparison with the bounds of the inset rectangle.
\<close>

theorem generatePegs_single_row_outside_inset:
  "length (fst (generatePegs rnd k 6)) = 6
   \<and> map peg_y (fst (generatePegs rnd k 6)) = replicate 6 NaN
   \<and> map in_inset (fst (generatePegs rnd k 6)) = replicate 6 False"
proof -
  note s = generatePegs_spec [of rnd k 6]
  then have len: "length (fst (generatePegs rnd k 6)) = 6" by blast
  have y: "peg_y p = NaN" if "p \<in> set (fst (generatePegs rnd k 6))" for p
  proof -
    from s that obtain r' k' c i where
      "r' < 1" "p = make_peg rnd k' 1 r' c i"
      unfolding rows_of_six by blast
    then show ?thesis using make_peg_y_one_row [of 1 rnd k' c i] by simp
  qed
  then have "\<forall>p\<in>set (fst (generatePegs rnd k 6)). peg_y p = NaN" by blast
  from map_const_replicate [OF this] len
  have A: "map peg_y (fst (generatePegs rnd k 6)) = replicate 6 NaN" by simp
  from y have "\<forall>p\<in>set (fst (generatePegs rnd k 6)). in_inset p = False"
    by (simp add: in_inset_def jle_def)
  from map_const_replicate [OF this] len
  have B: "map in_inset (fst (generatePegs rnd k 6)) = replicate 6 False" by simp
  from len A B show ?thesis by blast
qed

lemma generatePegs_distinct_ids: "distinct (map peg_id (fst (generatePegs rnd k count)))"
proof -
  have "inj_on (\<lambda>i. ''peg-'' @ string_of_nat i) (set [0..<count])"
    by (rule inj_onI) (simp add: string_of_nat_inj)
  then have "distinct (map (\<lambda>i. ''peg-'' @ string_of_nat i) [0..<count])"
    by (simp add: distinct_map)
  with generatePegs_spec [of rnd k count] show ?thesis by simp
qed

lemma generatePegs_y_le_1:
  assumes "p \<in> set (fst (generatePegs rnd k count))" "peg_y p = Fin v"
  shows "v \<le> 1"
proof -
  from generatePegs_spec [of rnd k count] assms(1) obtain r' k' c i where
    "p = make_peg rnd k' (nat \<lceil>real count / real cols\<rceil>) r' c i" by blast
  with assms(2) make_peg_y_le [of rnd k' "nat \<lceil>real count / real cols\<rceil>" r' c i v]
  show ?thesis by simp
qed

section \<open>The number oracle\<close>

text \<open>
  The index \<open>Math.floor(r * n)\<close> is \<open>i\<close> exactly for the draws \<open>r\<close> in
  \<open>[i / n, (i + 1) / n)\<close>.
\<close>

lemma floor_scaled_index:
  fixes r :: real
  assumes "0 < n"
  shows "(\<lfloor>r * real n\<rfloor> = int i) = (real i / real n \<le> r \<and> r < (real i + 1) / real n)"
proof -
  have "(\<lfloor>r * real n\<rfloor> = int i)
      = (real_of_int (int i) \<le> r * real n \<and> r * real n < real_of_int (int i) + 1)"
    by (rule floor_eq_iff)
  also have "\<dots> = (real i / real n \<le> r \<and> r < (real i + 1) / real n)"
    using assms by (simp add: field_simps)
  finally show ?thesis .
qed

text \<open>
  Claim C5. Let every draw of the random source lie in \<open>[0, 1)\<close>, let \<open>roll\<close> be the
  first draw, \<open>r\<close> the second, and \<open>unmarked\<close> the pool without the marked numbers, in
  the order of the pool. \<open>pickHitNumber\<close> makes two draws. When \<open>unmarked\<close> is not empty
  and \<open>roll < 0.75\<close>, the result is an element of \<open>unmarked\<close>: the one at index \<open>i\<close> for
  \<open>r\<close> in \<open>[i / n, (i + 1) / n)\<close>, \<open>n\<close> the length of \<open>unmarked\<close>, so that every index has
  an interval of draws of the same length. Otherwise, when \<open>unmarked\<close> is empty or
  \<open>roll \<ge> 0.75\<close>, the result is an integer in \<open>[1, 75]\<close>: it is \<open>v\<close> exactly for \<open>r\<close> in
  \<open>[(v - 1) / 75, v / 75)\<close>. The probabilities of the claim are the lengths of these
  intervals of draws.
\<close>

theorem pickHitNumber_policy:
  assumes "unit_random rnd"
  shows "set (filter (\<lambda>n. n \<notin> mk) pl) = set pl - mk
       \<and> snd (pickHitNumber rnd k pl mk) = k + 2
       \<and> (filter (\<lambda>n. n \<notin> mk) pl \<noteq> [] \<and> rnd k < 0.75 \<longrightarrow>
            (\<exists>i < length (filter (\<lambda>n. n \<notin> mk) pl).
               fst (pickHitNumber rnd k pl mk) = Some (filter (\<lambda>n. n \<notin> mk) pl ! i))
            \<and> (\<forall>i < length (filter (\<lambda>n. n \<notin> mk) pl).
                 real i / real (length (filter (\<lambda>n. n \<notin> mk) pl)) \<le> rnd (k + 1)
                 \<and> rnd (k + 1) < (real i + 1) / real (length (filter (\<lambda>n. n \<notin> mk) pl))
                 \<longrightarrow> fst (pickHitNumber rnd k pl mk) = Some (filter (\<lambda>n. n \<notin> mk) pl ! i)))
       \<and> (filter (\<lambda>n. n \<notin> mk) pl = [] \<or> rnd k \<ge> 0.75 \<longrightarrow>
            (\<exists>v \<in> {1..75}. fst (pickHitNumber rnd k pl mk) = Some v)
            \<and> (\<forall>v \<in> {1..75}.
                 (fst (pickHitNumber rnd k pl mk) = Some v)
                 = (real_of_int (v - 1) / 75 \<le> rnd (k + 1) \<and> rnd (k + 1) < real_of_int v / 75)))"
proof -
  let ?u = "filter (\<lambda>n. n \<notin> mk) pl"
  let ?r = "rnd (k + 1)"
  from assms have r0: "0 \<le> ?r" and r1: "?r < 1"
    by (simp_all add: unit_random_def)
  have A: "set ?u = set pl - mk" by auto
  have B: "snd (pickHitNumber rnd k pl mk) = k + 2"
    by (simp add: pickHitNumber_def Let_def)
  have C: "(\<exists>i < length ?u. fst (pickHitNumber rnd k pl mk) = Some (?u ! i))
        \<and> (\<forall>i < length ?u.
              (real i / real (length ?u) \<le> ?r \<and> ?r < (real i + 1) / real (length ?u))
               \<longrightarrow> fst (pickHitNumber rnd k pl mk) = Some (?u ! i))"
    if ne: "?u \<noteq> []" and roll: "rnd k < 0.75"
  proof -
    have len: "0 < length ?u" using ne by simp
    let ?i = "\<lfloor>?r * real (length ?u)\<rfloor>"
    have lo: "0 \<le> ?i" using r0 by simp
    have "?r * real (length ?u) < real (length ?u)" using r1 len by simp
    then have hi: "?i < int (length ?u)" by (simp add: floor_less_iff)
    have pick: "fst (pickHitNumber rnd k pl mk) = Some (?u ! nat ?i)"
      using len roll lo hi by (simp add: pickHitNumber_def Let_def)
    from lo hi have "nat ?i < length ?u" by linarith
    with pick have 1: "\<exists>i < length ?u. fst (pickHitNumber rnd k pl mk) = Some (?u ! i)"
      by blast
    have 2: "fst (pickHitNumber rnd k pl mk) = Some (?u ! i)"
      if "real i / real (length ?u) \<le> ?r \<and> ?r < (real i + 1) / real (length ?u)" for i
    proof -
      from that floor_scaled_index [OF len, of ?r i] have "?i = int i" by simp
      with pick show ?thesis by simp
    qed
    from 1 2 show ?thesis by blast
  qed
  have D: "(\<exists>v \<in> {1..75}. fst (pickHitNumber rnd k pl mk) = Some v)
        \<and> (\<forall>v \<in> {1..75}. (fst (pickHitNumber rnd k pl mk) = Some v)
              = (real_of_int (v - 1) / 75 \<le> ?r \<and> ?r < real_of_int v / 75))"
    if "?u = [] \<or> rnd k \<ge> 0.75"
  proof -
    have pick: "fst (pickHitNumber rnd k pl mk) = Some (\<lfloor>?r * 75\<rfloor> + 1)"
      using that by (auto simp add: pickHitNumber_def Let_def)
    have lo: "0 \<le> \<lfloor>?r * 75\<rfloor>" using r0 by simp
    have "?r * 75 < 75" using r1 by simp
    then have hi: "\<lfloor>?r * 75\<rfloor> < 75" by (simp add: floor_less_iff)
    have 1: "\<exists>v \<in> {1..75}. fst (pickHitNumber rnd k pl mk) = Some v"
      using pick lo hi by auto
    have 2: "(fst (pickHitNumber rnd k pl mk) = Some v)
              = (real_of_int (v - 1) / 75 \<le> ?r \<and> ?r < real_of_int v / 75)" for v
    proof -
      have "(\<lfloor>?r * 75\<rfloor> + 1 = v) = (\<lfloor>?r * 75\<rfloor> = v - 1)" by auto
      also have "\<dots> = (real_of_int (v - 1) \<le> ?r * 75 \<and> ?r * 75 < real_of_int (v - 1) + 1)"
        by (rule floor_eq_iff)
      also have "\<dots> = (real_of_int (v - 1) / 75 \<le> ?r \<and> ?r < real_of_int v / 75)"
        by (simp add: field_simps)
      finally show ?thesis using pick by simp
    qed
    from 1 2 show ?thesis by blast
  qed
  from A B C D show ?thesis by blast
qed

theorem pickHitNumber_policy_witness:
  "unit_random half_random
   \<and> filter (\<lambda>n. n \<notin> {16}) [1, 16, 31, 46 :: int] \<noteq> [] \<and> half_random 0 < 0.75
   \<and> (1 :: nat) < length (filter (\<lambda>n. n \<notin> {16}) [1, 16, 31, 46 :: int])
   \<and> real 1 / real (length (filter (\<lambda>n. n \<notin> {16}) [1, 16, 31, 46 :: int])) \<le> half_random (0 + 1)
   \<and> half_random (0 + 1) < (real 1 + 1) / real (length (filter (\<lambda>n. n \<notin> {16}) [1, 16, 31, 46 :: int]))
   \<and> fst (pickHitNumber half_random 0 [1, 16, 31, 46] {16}) = Some 31
   \<and> filter (\<lambda>n. n \<notin> {16}) [16 :: int] = []
   \<and> (38 :: int) \<in> {1..75}
   \<and> fst (pickHitNumber half_random 0 [16] {16}) = Some 38"
proof -
  have u: "unit_random half_random" by (simp add: unit_random_def half_random_def)
  have f: "filter (\<lambda>n. n \<notin> {16}) [1, 16, 31, 46 :: int] = [1, 31, 46]" by simp
  have e: "filter (\<lambda>n. n \<notin> {16}) [16 :: int] = []" by simp
  note first = pickHitNumber_policy [OF u, of "{16}" "[1, 16, 31, 46]" 0, unfolded f]
  note second = pickHitNumber_policy [OF u, of "{16}" "[16]" 0, unfolded e]
  have h: "half_random 0 < 0.75" "real 1 / real (length [1, 31, 46 :: int]) \<le> half_random (0 + 1)"
    "half_random (0 + 1) < (real 1 + 1) / real (length [1, 31, 46 :: int])"
    by (simp_all add: half_random_def)
  from first h have "\<forall>i < length [1, 31, 46 :: int].
      real i / real (length [1, 31, 46 :: int]) \<le> half_random (0 + 1)
      \<and> half_random (0 + 1) < (real i + 1) / real (length [1, 31, 46 :: int])
      \<longrightarrow> fst (pickHitNumber half_random 0 [1, 16, 31, 46] {16}) = Some ([1, 31, 46] ! i)"
    by blast
  from this [rule_format, of 1] h
  have a: "fst (pickHitNumber half_random 0 [1, 16, 31, 46] {16}) = Some 31" by simp
  from second have "\<forall>v \<in> {1..75}. (fst (pickHitNumber half_random 0 [16] {16}) = Some v)
      = (real_of_int (v - 1) / 75 \<le> half_random (0 + 1) \<and> half_random (0 + 1) < real_of_int v / 75)"
    by blast
  from this [rule_format, of 38]
  have b: "fst (pickHitNumber half_random 0 [16] {16}) = Some 38"
    by (simp add: half_random_def)
  from u a b h show ?thesis unfolding f e by simp
qed


section \<open>First contact\<close>

lemma scan_peg_updates:
  "(i, n) \<in> set (sc_updates (scan_peg rnd pl mk x y p sc)) \<Longrightarrow>
     (i, n) \<in> set (sc_updates sc) \<or> (i = peg_id p \<and> \<not> hit p \<and> \<not> removed p)"
  by (auto simp: scan_peg_def Let_def split_beta split: if_splits)

lemma peg_scan_updates:
  "(i, n) \<in> set (sc_updates (peg_scan rnd pl mk x y ps sc)) \<Longrightarrow>
     (i, n) \<in> set (sc_updates sc) \<or> (\<exists>p\<in>set ps. i = peg_id p \<and> \<not> hit p \<and> \<not> removed p)"
proof (induction ps arbitrary: sc)
  case Nil
  then show ?case by simp
next
  case (Cons p ps)
  from Cons.prems Cons.IH [of "scan_peg rnd pl mk x y p sc"]
  have "(i, n) \<in> set (sc_updates (scan_peg rnd pl mk x y p sc))
        \<or> (\<exists>p\<in>set ps. i = peg_id p \<and> \<not> hit p \<and> \<not> removed p)" by simp
  with scan_peg_updates [of i n rnd pl mk x y p sc] show ?case by auto
qed

lemma apply_updates_ids [simp]: "map peg_id (apply_updates us ps) = map peg_id ps"
  by (auto simp: apply_updates_def Let_def split: option.splits)

lemma apply_updates_y [simp]: "map peg_y (apply_updates us ps) = map peg_y ps"
  by (auto simp: apply_updates_def Let_def split: option.splits)

lemma apply_updates_length [simp]: "length (apply_updates us ps) = length ps"
  by (simp add: apply_updates_def Let_def)

lemma apply_updates_untouched:
  assumes "peg_id (ps ! k) \<notin> fst ` set us" "k < length ps"
  shows "apply_updates us ps ! k = ps ! k"
proof -
  have "map_of (rev us) (peg_id (ps ! k)) = None"
    using assms(1) by (simp add: map_of_eq_None_iff)
  then show ?thesis using assms(2) by (simp add: apply_updates_def Let_def)
qed

text \<open>A peg that the ref shows as hit gets no entry in \<open>pegUpdates\<close>.\<close>

lemma lit_in_ref_not_updated:
  assumes "distinct (map peg_id (pegsRef s))" "k < length (pegsRef s)" "hit (pegsRef s ! k)"
    and "peg_scan rnd pl mk x y (pegsRef s) (scan0 s) = sc"
  shows "peg_id (pegsRef s ! k) \<notin> fst ` set (sc_updates sc)"
proof
  assume "peg_id (pegsRef s ! k) \<in> fst ` set (sc_updates sc)"
  then obtain n where "(peg_id (pegsRef s ! k), n) \<in> set (sc_updates sc)" by force
  with peg_scan_updates [of "peg_id (pegsRef s ! k)" n rnd pl mk x y "pegsRef s" "scan0 s"]
    assms(4)
  obtain p where p: "p \<in> set (pegsRef s)" "peg_id (pegsRef s ! k) = peg_id p" "\<not> hit p"
    by (auto simp: scan0_def)
  from assms(1) have "inj_on peg_id (set (pegsRef s))" by (simp add: distinct_map)
  with p(1,2) assms(2) have "pegsRef s ! k = p" by (auto dest: inj_onD)
  with p(3) assms(3) show False by simp
qed

lemma removed_map_ids [simp]:
  "map peg_id (map (\<lambda>p. if peg_id p \<in> H then p\<lparr>removed := True\<rparr> else p) ps) = map peg_id ps"
  by (induction ps) simp_all

lemma removed_map_y [simp]:
  "map peg_y (map (\<lambda>p. if peg_id p \<in> H then p\<lparr>removed := True\<rparr> else p) ps) = map peg_y ps"
  by (induction ps) simp_all

lemma step_seen_lit:
  assumes "seen_lit k v s"
  shows "seen_lit k v (snd (step rnd now s))"
proof (cases "dropping (ball s)")
  case False
  show ?thesis
  proof (cases "ball_y (ball s) \<ge> 1.05 \<and> hitPegIds s \<noteq> {}")
    case True
    with False have "snd (step rnd now s) =
        (foldl (\<lambda>t n. markNumber n t) (s\<lparr>lastUpdate := now\<rparr>)
           (snd (cleanup_map (hitPegIds s) (pegsRef s) [])))
         \<lparr>pegs := map (\<lambda>p. if peg_id p \<in> hitPegIds s then p\<lparr>removed := True\<rparr> else p)
                    (pegsRef s),
           hitPegIds := {}\<rparr>"
      by (simp add: step_cleanup cleanup_map_fst)
    moreover from assms have "length (pegsRef s) = length (pegs s)"
      by (auto simp: seen_lit_def dest: map_eq_imp_length_eq)
    ultimately show ?thesis using assms
      by (simp add: seen_lit_def del: map_map)
  next
    case nc: False
    with False assms show ?thesis by (simp add: step_idle seen_lit_def)
  qed
next
  case True
  obtain x y vx vy where
    w: "walls (integrate (min 0.02 ((now - lastUpdate s) / 1000)) (ball s)) = (x, y, vx, vy)"
    by (metis prod_cases4)
  obtain sc where sc: "peg_scan rnd (pool s) (marked s) x y (pegsRef s) (scan0 s) = sc"
    by simp
  obtain x' y' vx' vy' where b: "bounce (sc_closest sc) (x, y, vx, vy) = (x', y', vx', vy')"
    by (metis prod_cases4)
  from assms have len: "length (pegsRef s) = length (pegs s)"
    by (auto simp: seen_lit_def dest: map_eq_imp_length_eq)
  from assms have d: "distinct (map peg_id (pegsRef s))" "k < length (pegsRef s)"
    "hit (pegsRef s ! k)"
    using len by (simp_all add: seen_lit_def)
  from assms len have "peg_id (pegs s ! k) = peg_id (pegsRef s ! k)"
    unfolding seen_lit_def by (metis nth_map)
  with lit_in_ref_not_updated [OF d sc]
  have "peg_id (pegs s ! k) \<notin> fst ` set (sc_updates sc)" by simp
  with assms have "apply_updates (sc_updates sc) (pegs s) ! k = pegs s ! k"
    by (intro apply_updates_untouched) (simp_all add: seen_lit_def)
  then show ?thesis
    unfolding step_dropping [OF True w sc b] using assms by (simp add: seen_lit_def)
qed

lemma apply_event_seen_lit:
  assumes "seen_lit k v s" "\<not> replaces_pegs e"
  shows "seen_lit k v (apply_event rnd s e)"
proof (cases e)
  case (Frame now)
  then show ?thesis using step_seen_lit [OF assms(1)] by simp
qed (use assms in \<open>simp_all add: seen_lit_def pegsEffect_def handleStart_def handleMove_def
      handleEnd_def\<close>)

lemma run_seen_lit:
  assumes "seen_lit k v s" "\<forall>e\<in>set es. \<not> replaces_pegs e"
  shows "seen_lit k v (run rnd es s)"
  using assms unfolding run_def
  by (induction es arbitrary: s) (simp_all add: apply_event_seen_lit)


text \<open>The bounce of a ball that comes down on a peg straight from above.\<close>

lemma bounce_above:
  assumes "y < cy" "cy - y < 0.048"
  shows "bounce (Some \<lparr> peg_id = i, peg_x = Fin x, peg_y = Fin cy, removed = r, hit = h, num = n \<rparr>)
           (x, y, 0, vy)
         = (clamp x 0.03 0.97, clamp (y + (- 1) * (rBall + rPeg - (cy - y)) * 0.8) 0.03 1.1, 0,
            - vy * 0.88)"
proof -
  have root: "sqrt ((x - x) * (x - x) + (y - cy) * (y - cy)) = cy - y"
    using assms(1) by simp
  have ny: "(y - cy) / (cy - y) = - 1"
    using assms(1) by (simp add: field_simps)
  show ?thesis
    using assms unfolding bounce_def Let_def prod.case option.case jsnum.case peg.simps root
    by (simp add: rBall_def rPeg_def ny)
qed

text \<open>The definitions to unfold when a frame is evaluated on a concrete state.\<close>

lemmas frame_eval =
  step_def Let_def integrate_def walls_def scan0_def scan_peg_def pickHitNumber_def
  relight_random_def apply_updates_def pool_def example_card_def cardNumberPool_def
  bounce_above g_def damp_def rBall_def rPeg_def rr_def jsub_def jle_def clamp_def

lemma first_frame:
  "snd (step relight_random (50 / 3) contact_game) =
     \<lparr> card_grid = example_card, marked = {},
       pegs = [unlit_peg\<lparr>hit := True, num := Some 1\<rparr>], pegsRef = [unlit_peg], ballsLeft = 4,
       ball = \<lparr> ball_x = 1 / 2, ball_y = 18107441 / 40000000, ball_vx = 0,
               ball_vy = - (113553 / 5000000), dropping = True \<rparr>,
       hitPegIds = {''peg-0''}, lastUpdate = 50 / 3, isPositioning = False, rng = 2 \<rparr>"
  by (simp add: frame_eval contact_game_def unlit_peg_def)

lemma second_frame_stale:
  "pegs (snd (step relight_random (100 / 3)
     \<lparr> card_grid = example_card, marked = {},
       pegs = [unlit_peg\<lparr>hit := True, num := Some 1\<rparr>], pegsRef = [unlit_peg], ballsLeft = 4,
       ball = \<lparr> ball_x = 1 / 2, ball_y = 18107441 / 40000000, ball_vx = 0,
               ball_vy = - (113553 / 5000000), dropping = True \<rparr>,
       hitPegIds = {''peg-0''}, lastUpdate = 50 / 3, isPositioning = False, rng = 2 \<rparr>))
   = [unlit_peg\<lparr>hit := True, num := Some 48\<rparr>]"
  by (simp add: frame_eval unlit_peg_def)

lemma second_frame_synced:
  "pegs (snd (step relight_random (100 / 3)
     \<lparr> card_grid = example_card, marked = {},
       pegs = [unlit_peg\<lparr>hit := True, num := Some 1\<rparr>],
       pegsRef = [unlit_peg\<lparr>hit := True, num := Some 1\<rparr>], ballsLeft = 4,
       ball = \<lparr> ball_x = 1 / 2, ball_y = 18107441 / 40000000, ball_vx = 0,
               ball_vy = - (113553 / 5000000), dropping = True \<rparr>,
       hitPegIds = {''peg-0''}, lastUpdate = 50 / 3, isPositioning = False, rng = 2 \<rparr>))
   = [unlit_peg\<lparr>hit := True, num := Some 1\<rparr>]"
  by (simp add: frame_eval unlit_peg_def)

text \<open>
  Claim C1 on the code: a peg's number, once set, can change in a later frame. The loop
  tests \<open>hit\<close> on \<open>pegsRef.current\<close>, which holds the pegs of the last run of the effect,
  and the updater passed to \<open>setPegs\<close> writes the number without testing \<open>hit\<close> on the
  state. In \<open>contact_game\<close> the ball meets the unlit peg in the frame at 50/3 ms and the
  peg gets the number 1; in the next frame, at 100/3 ms, the ball still overlaps the peg,
  the ref still shows the peg unlit, and the peg gets the number 48. With the effect run
  between the two frames the peg keeps the number 1.
\<close>

theorem peg_renumbered_before_sync:
  "\<not> hit (pegs contact_game ! 0)
   \<and> hit (pegs (run relight_random [Frame (50 / 3)] contact_game) ! 0)
   \<and> num (pegs (run relight_random [Frame (50 / 3)] contact_game) ! 0) = Some 1
   \<and> hit (pegs (run relight_random [Frame (50 / 3), Frame (100 / 3)] contact_game) ! 0)
   \<and> num (pegs (run relight_random [Frame (50 / 3), Frame (100 / 3)] contact_game) ! 0) = Some 48
   \<and> num (pegs (run relight_random [Frame (50 / 3), PegsEffect, Frame (100 / 3)] contact_game) ! 0)
       = Some 1"
  by (simp add: run_def first_frame second_frame_stale second_frame_synced pegsEffect_def)
    (simp add: contact_game_def unlit_peg_def)


text \<open>
  What the code does keep: once the ref shows a peg as hit, with the number it has in the
  state, the peg keeps this number through every sequence of frames, effects and pointer
  events without a board reset or new game. So a number can change only in the frames
  between the first contact and the next run of the effect.
\<close>

lemma number_kept_once_ref_synced:
  assumes "distinct (map peg_id (pegs s))" "pegsRef s = pegs s" "k < length (pegs s)"
    and "hit (pegs s ! k)" "\<forall>e\<in>set es. \<not> replaces_pegs e"
  shows "hit (pegs (run rnd es s) ! k) \<and> num (pegs (run rnd es s) ! k) = num (pegs s ! k)"
proof -
  from assms(1-4) have "seen_lit k (num (pegs s ! k)) s" by (simp add: seen_lit_def)
  from run_seen_lit [OF this assms(5), of rnd] show ?thesis by (simp add: seen_lit_def)
qed


section \<open>Reachable boards\<close>

lemma apply_updates_lit:
  assumes "\<forall>p\<in>set ps. hit p = (num p \<noteq> None)"
  shows "\<forall>p\<in>set (apply_updates us ps). hit p = (num p \<noteq> None)"
  using assms by (auto simp: apply_updates_def Let_def split: option.splits)

lemma apply_updates_ok: "pegs_ok ps \<Longrightarrow> pegs_ok (apply_updates us ps)"
  using apply_updates_lit [of ps us] by (simp add: pegs_ok_def)

lemma removed_map_ok:
  "pegs_ok ps \<Longrightarrow> pegs_ok (map (\<lambda>p. if peg_id p \<in> H then p\<lparr>removed := True\<rparr> else p) ps)"
  by (auto simp add: pegs_ok_def simp del: map_map)

lemma step_board_ok:
  assumes "board_ok s"
  shows "board_ok (snd (step rnd now s))"
proof (cases "dropping (ball s)")
  case False
  show ?thesis
  proof (cases "ball_y (ball s) \<ge> 1.05 \<and> hitPegIds s \<noteq> {}")
    case True
    with False assms show ?thesis
      by (simp add: step_cleanup cleanup_map_fst board_ok_def removed_map_ok)
  next
    case nc: False
    with False assms show ?thesis by (simp add: step_idle board_ok_def)
  qed
next
  case True
  obtain x y vx vy where
    w: "walls (integrate (min 0.02 ((now - lastUpdate s) / 1000)) (ball s)) = (x, y, vx, vy)"
    by (metis prod_cases4)
  obtain sc where sc: "peg_scan rnd (pool s) (marked s) x y (pegsRef s) (scan0 s) = sc"
    by simp
  obtain x' y' vx' vy' where b: "bounce (sc_closest sc) (x, y, vx, vy) = (x', y', vx', vy')"
    by (metis prod_cases4)
  show ?thesis
    unfolding step_dropping [OF True w sc b] using assms
    by (simp add: board_ok_def apply_updates_ok)
qed

lemma generatePegs_ok: "pegs_ok (fst (generatePegs rnd k count))"
proof -
  have "hit p = (num p \<noteq> None)" if "p \<in> set (fst (generatePegs rnd k count))" for p
  proof -
    from generatePegs_spec [of rnd k count] that obtain r' k' c i where
      "p = make_peg rnd k' (nat \<lceil>real count / real cols\<rceil>) r' c i" by blast
    then show ?thesis by (simp add: make_peg_fresh)
  qed
  with generatePegs_distinct_ids [of rnd k count] generatePegs_y_le_1 [of _ rnd k count]
  show ?thesis by (auto simp: pegs_ok_def)
qed

lemma init_game_board_ok: "board_ok (init_game rnd newCard now)"
  using generatePegs_ok [of rnd 0 30]
  by (simp add: board_ok_def init_game_def split_beta)

lemma apply_event_board_ok:
  assumes "board_ok s"
  shows "board_ok (apply_event rnd s e)"
proof (cases e)
  case (Frame now)
  with step_board_ok [OF assms] show ?thesis by simp
next
  case PegsEffect
  with assms show ?thesis by (simp add: board_ok_def pegsEffect_def)
next
  case (PointerStart ratio)
  with assms show ?thesis by (simp add: board_ok_def handleStart_def)
next
  case (PointerMove ratio)
  with assms show ?thesis by (simp add: board_ok_def handleMove_def)
next
  case PointerEnd
  with assms show ?thesis by (simp add: board_ok_def handleEnd_def)
next
  case ResetBoard
  with assms generatePegs_ok [of rnd "rng s" 30] show ?thesis
    by (simp add: board_ok_def resetBoard_def split_beta)
next
  case (NewGame newCard)
  with assms generatePegs_ok [of rnd "rng s" 30] show ?thesis
    by (simp add: board_ok_def newGame_def resetBoard_def split_beta)
qed

lemma run_board_ok: "board_ok s \<Longrightarrow> board_ok (run rnd es s)"
  unfolding run_def by (induction es arbitrary: s) (simp_all add: apply_event_board_ok)

text \<open>
  Every board the component can reach from its first render has distinct peg ids, its
  pegs at \<open>y \<le> 1\<close>, and the \<open>hit\<close> flag set on exactly the pegs that have a number, in
  the state and in the ref: these are the hypotheses on the board in the theorem on the
  drain and in the lemma on the numbers that are kept.
\<close>

lemma reachable_board:
  "distinct (map peg_id (pegs (run rnd es (init_game rnd newCard now))))
   \<and> distinct (map peg_id (pegsRef (run rnd es (init_game rnd newCard now))))
   \<and> (\<forall>p\<in>set (pegsRef (run rnd es (init_game rnd newCard now))).
         (\<forall>v. peg_y p = Fin v \<longrightarrow> v \<le> 1) \<and> hit p = (num p \<noteq> None))
   \<and> (\<forall>p\<in>set (pegs (run rnd es (init_game rnd newCard now))).
         (\<forall>v. peg_y p = Fin v \<longrightarrow> v \<le> 1) \<and> hit p = (num p \<noteq> None))"
  using run_board_ok [OF init_game_board_ok, of rnd es rnd newCard now]
  by (simp add: board_ok_def pegs_ok_def)

end
